theory Spec2Isabelle
  imports Complex_Main "HOL-Library.Signed_Division" "HOL-Library.Log_Nat"
    "HOL-Library.Monad_Syntax"
begin

section \<open>Pose-detection post-processing: decoder, IoU, NMS and stride alignment\<close>

text \<open>
  The development embeds the post-processing half of \<^verbatim>\<open>src/utils/inference_pipeline.js\<close>:
  the decoding loop of \<^verbatim>\<open>inference_pipeline\<close>, \<^verbatim>\<open>calculateIOU\<close>, \<^verbatim>\<open>applyNMS\<close> and
  \<^verbatim>\<open>divStride\<close>.

  Numbers. A JavaScript Number is an IEEE double. The embedding uses the exact reals for
  the tensor values, the box coordinates, the scores and the thresholds, so a statement
  about \<open>decode\<close>, \<open>calculateIOU\<close> or \<open>suppress\<close> is about finite numbers combined without
  rounding; NaN and the infinities are not values of the model. The one place where the
  source can leave the finite numbers from finite inputs, the division in
  \<^verbatim>\<open>calculateIOU\<close>, is modelled with an explicit result \<open>None\<close>. Where the rounding of the
  doubles decides a statement, \<^verbatim>\<open>calculateIOU\<close> is embedded a second time, as
  \<open>calculateIOU_rounded\<close>, with every arithmetic result rounded to a double. Image
  dimensions and the stride are integers.
\<close>

subsection \<open>Data model\<close>

text \<open>A keypoint object \<^verbatim>\<open>{x, y, score}\<close>.\<close>

record keypoint =
  kp_x :: real
  kp_y :: real
  kp_score :: real

text \<open>The array \<^verbatim>\<open>[x, y, w, h]\<close> stored under \<^verbatim>\<open>bbox\<close>.\<close>

type_synonym box = "real \<times> real \<times> real \<times> real"

text \<open>
  A result object \<^verbatim>\<open>{bbox, score, keypoints}\<close>. The keypoint array is created by
  \<^verbatim>\<open>new Array(NUM_KEYPOINTS)\<close>, all slots empty, and filled by index: a slot is
  \<open>None\<close> while it is empty.
\<close>

record detection =
  bbox :: box
  score :: real
  keypoints :: "keypoint option list"

subsection \<open>The decoding loop of inference_pipeline\<close>

definition NUM_BBOX_ATTRS :: nat where
  "NUM_BBOX_ATTRS = 5"

definition NUM_KEYPOINTS :: nat where
  "NUM_KEYPOINTS = 17"

definition KEYPOINT_DIMS :: nat where
  "KEYPOINT_DIMS = 3"

text \<open>
  The loop \<^verbatim>\<open>for (let kp = 0; kp < NUM_KEYPOINTS; kp++)\<close>: it stores a keypoint object
  in slot \<^verbatim>\<open>kp\<close> of the array \<^verbatim>\<open>keypoints\<close> (here \<open>slots\<close>), read from \<^verbatim>\<open>keypoints_data\<close> at \<^verbatim>\<open>base_idx\<close>,
  \<^verbatim>\<open>base_idx + num_predictions\<close> and \<^verbatim>\<open>base_idx + num_predictions * 2\<close>.
\<close>

function fill_keypoints ::
  "real list \<Rightarrow> nat \<Rightarrow> real \<Rightarrow> real \<Rightarrow> nat \<Rightarrow> nat \<Rightarrow> keypoint option list \<Rightarrow> keypoint option list"
where
  "fill_keypoints keypoints_data num_predictions xRatio yRatio i kp slots =
     (if kp < NUM_KEYPOINTS then
        let base_idx = kp * KEYPOINT_DIMS * num_predictions + i
        in fill_keypoints keypoints_data num_predictions xRatio yRatio i (kp + 1)
             (slots[kp := Some
                \<lparr>kp_x = keypoints_data ! base_idx * xRatio,
                 kp_y = keypoints_data ! (base_idx + num_predictions) * yRatio,
                 kp_score = keypoints_data ! (base_idx + num_predictions * 2)\<rparr>])
      else slots)"
  by pat_completeness auto
termination
  by (relation "measure (\<lambda>(kd, n, xr, yr, i, kp, ks). NUM_KEYPOINTS - kp)") auto

declare fill_keypoints.simps [simp del]

text \<open>
  The loop \<^verbatim>\<open>for (let i = 0; i < num_predictions; i++)\<close> on the array \<^verbatim>\<open>results\<close>:
  an anchor whose score is at most the threshold is skipped by \<^verbatim>\<open>continue\<close>, any other
  pushes one result object.
\<close>

function decode_loop ::
  "real list \<Rightarrow> real list \<Rightarrow> nat \<Rightarrow> real \<Rightarrow> real \<Rightarrow> real \<Rightarrow> nat \<Rightarrow> detection list \<Rightarrow> detection list"
where
  "decode_loop bbox_data keypoints_data num_predictions score_threshold xRatio yRatio i results =
     (if i < num_predictions then
        let score = bbox_data ! (i + num_predictions * 4)
        in if score \<le> score_threshold
           then decode_loop bbox_data keypoints_data num_predictions score_threshold
                  xRatio yRatio (i + 1) results
           else
             let x = (bbox_data ! i - 0.5 * bbox_data ! (i + num_predictions * 2)) * xRatio;
                 y = (bbox_data ! (i + num_predictions)
                        - 0.5 * bbox_data ! (i + num_predictions * 3)) * yRatio;
                 w = bbox_data ! (i + num_predictions * 2) * xRatio;
                 h = bbox_data ! (i + num_predictions * 3) * yRatio;
                 keypoints = fill_keypoints keypoints_data num_predictions xRatio yRatio i 0
                               (replicate NUM_KEYPOINTS None)
             in decode_loop bbox_data keypoints_data num_predictions score_threshold
                  xRatio yRatio (i + 1)
                  (results @ [\<lparr>bbox = (x, y, w, h), score = score, keypoints = keypoints\<rparr>])
      else results)"
  by pat_completeness auto
termination
  by (relation "measure (\<lambda>(bd, kd, n, t, xr, yr, i, rs). n - i)") auto

declare decode_loop.simps [simp del]

text \<open>
  The post-processing up to the call of \<^verbatim>\<open>applyNMS\<close>. \<open>predictions\<close> is
  \<^verbatim>\<open>output0.data\<close> and \<open>num_predictions\<close> is \<^verbatim>\<open>output0.dims[2]\<close>;
  \<^verbatim>\<open>subarray(0, e)\<close> is \<open>take e\<close> and \<^verbatim>\<open>subarray(b)\<close> is \<open>drop b\<close>. The source reads the
  buffer without a check of its length; the statements about \<open>decode\<close> assume the shape
  \<^verbatim>\<open>[1, 56, num_predictions]\<close>, under which every read is inside the buffer.
\<close>

definition decode :: "real list \<Rightarrow> nat \<Rightarrow> real \<Rightarrow> real \<Rightarrow> real \<Rightarrow> detection list" where
  "decode predictions num_predictions score_threshold xRatio yRatio =
     (let bbox_data = take (num_predictions * NUM_BBOX_ATTRS) predictions;
          keypoints_data = drop (num_predictions * NUM_BBOX_ATTRS) predictions
      in decode_loop bbox_data keypoints_data num_predictions score_threshold xRatio yRatio 0 [])"

text \<open>
  The detection of anchor \<open>i\<close> in the words of the specification, on the tensor of shape
  \<^verbatim>\<open>[1, C, N]\<close> stored row by row: channel \<open>c\<close> of anchor \<open>i\<close> is at offset \<open>c * N + i\<close>;
  channels 0 to 3 are the centre and the size of the box, channel 4 is the score, and
  keypoint \<open>k\<close> has its x, y and score in channels \<open>5 + 3 * k\<close>, \<open>5 + 3 * k + 1\<close> and
  \<open>5 + 3 * k + 2\<close>.
\<close>

definition channel :: "real list \<Rightarrow> nat \<Rightarrow> nat \<Rightarrow> nat \<Rightarrow> real" where
  "channel predictions n c i = predictions ! (c * n + i)"

definition spec_detection :: "real list \<Rightarrow> nat \<Rightarrow> real \<Rightarrow> real \<Rightarrow> nat \<Rightarrow> detection" where
  "spec_detection predictions n x_ratio y_ratio i =
     \<lparr>bbox = ((channel predictions n 0 i - 0.5 * channel predictions n 2 i) * x_ratio,
              (channel predictions n 1 i - 0.5 * channel predictions n 3 i) * y_ratio,
              channel predictions n 2 i * x_ratio,
              channel predictions n 3 i * y_ratio),
      score = channel predictions n 4 i,
      keypoints = map (\<lambda>k. Some
         \<lparr>kp_x = channel predictions n (5 + 3 * k) i * x_ratio,
          kp_y = channel predictions n (5 + 3 * k + 1) i * y_ratio,
          kp_score = channel predictions n (5 + 3 * k + 2) i\<rparr>) [0..<17]\<rparr>"

subsection \<open>calculateIOU\<close>

text \<open>
  The quotient of two finite numbers. With a zero divisor JavaScript yields an infinity or
  NaN, which is not a real number: the model returns \<open>None\<close> there.
\<close>

definition js_div :: "real \<Rightarrow> real \<Rightarrow> real option" where
  "js_div a b = (if b = 0 then None else Some (a / b))"

fun calculateIOU :: "box \<Rightarrow> box \<Rightarrow> real option" where
  "calculateIOU (x1, y1, w1, h1) (x2, y2, w2, h2) =
     (let box1_x2 = x1 + w1;
          box1_y2 = y1 + h1;
          box2_x2 = x2 + w2;
          box2_y2 = y2 + h2;
          intersect_x1 = max x1 x2;
          intersect_y1 = max y1 y2;
          intersect_x2 = min box1_x2 box2_x2;
          intersect_y2 = min box1_y2 box2_y2
      in if intersect_x2 \<le> intersect_x1 \<or> intersect_y2 \<le> intersect_y1 then Some 0
         else
           let intersection = (intersect_x2 - intersect_x1) * (intersect_y2 - intersect_y1);
               box1_area = w1 * h1;
               box2_area = w2 * h2
           in js_div intersection (box1_area + box2_area - intersection))"

declare calculateIOU.simps [simp del]

subsection \<open>calculateIOU on doubles\<close>

text \<open>
  Rounding a real to the nearest integer, a tie going to the even one.
\<close>

definition round_half_even :: "real \<Rightarrow> int" where
  "round_half_even q =
     (let f = \<lfloor>q\<rfloor>; d = q - of_int f
      in if d < 1 / 2 then f else if 1 / 2 < d then f + 1 else if even f then f else f + 1)"

text \<open>
  The binary exponent of a positive real \<open>x\<close>, the integer \<open>e\<close> with
  \<open>2 powi e \<le> x < 2 powi (e + 1)\<close>, computed from the bit length of \<open>\<lfloor>x\<rfloor>\<close> when
  \<open>1 \<le> x\<close> and of \<open>\<lceil>1 / x\<rceil> - 1\<close> otherwise.
\<close>

definition binary_exponent :: "real \<Rightarrow> int" where
  "binary_exponent x = (if 1 \<le> x then bitlen \<lfloor>x\<rfloor> - 1 else - bitlen (\<lceil>1 / x\<rceil> - 1))"

text \<open>
  The double nearest to a real (IEEE 754 binary64, round to nearest, ties to even): 53
  significant bits, so the spacing at binary exponent \<open>e\<close> is \<open>2 powi (e - 52)\<close>; below
  the least normal exponent \<open>- 1022\<close> the spacing stays \<open>2 powi (- 1074)\<close>; a rounded
  magnitude of \<open>2 ^ 1024\<close> or more is no finite double (the arithmetic yields an
  infinity), and the result is \<open>None\<close>. The sign of a zero is not modelled.
\<close>

definition overflow_threshold :: real where
  "overflow_threshold = 2 ^ 1024"

definition binary64 :: "real \<Rightarrow> real option" where
  "binary64 x =
     (if x = 0 then Some 0
      else
        let e = max (binary_exponent \<bar>x\<bar>) (- 1022);
            ulp = 2 powi (e - 52);
            r = of_int (round_half_even (x / ulp)) * ulp
        in if overflow_threshold \<le> \<bar>r\<bar> then None else Some r)"

text \<open>The exponent of the spacing of the doubles around \<open>x\<close>.\<close>

definition unit_exponent :: "real \<Rightarrow> int" where
  "unit_exponent x = max (binary_exponent \<bar>x\<bar>) (- 1022) - 52"


text \<open>
  \<^verbatim>\<open>calculateIOU\<close> with the rounding written out: every sum, difference, product and
  quotient of the source is followed by \<open>rnd\<close>, the rounding of the arithmetic;
  \<^verbatim>\<open>Math.max\<close>, \<^verbatim>\<open>Math.min\<close> and the comparisons are exact on doubles. With
  \<open>rnd = binary64\<close> it is the computation of the source on doubles, as long as every
  intermediate result is finite; the result is \<open>None\<close> when one is not (an overflow, or
  the division by zero). With \<open>rnd = Some\<close> it is the exact \<open>calculateIOU\<close> above.
\<close>

fun calculateIOU_rounded :: "(real \<Rightarrow> real option) \<Rightarrow> box \<Rightarrow> box \<Rightarrow> real option" where
  "calculateIOU_rounded rnd (x1, y1, w1, h1) (x2, y2, w2, h2) =
     do {
       box1_x2 \<leftarrow> rnd (x1 + w1);
       box1_y2 \<leftarrow> rnd (y1 + h1);
       box2_x2 \<leftarrow> rnd (x2 + w2);
       box2_y2 \<leftarrow> rnd (y2 + h2);
       let intersect_x1 = max x1 x2;
           intersect_y1 = max y1 y2;
           intersect_x2 = min box1_x2 box2_x2;
           intersect_y2 = min box1_y2 box2_y2
       in if intersect_x2 \<le> intersect_x1 \<or> intersect_y2 \<le> intersect_y1 then Some 0
          else do {
            dx \<leftarrow> rnd (intersect_x2 - intersect_x1);
            dy \<leftarrow> rnd (intersect_y2 - intersect_y1);
            intersection \<leftarrow> rnd (dx * dy);
            box1_area \<leftarrow> rnd (w1 * h1);
            box2_area \<leftarrow> rnd (w2 * h2);
            total \<leftarrow> rnd (box1_area + box2_area);
            union \<leftarrow> rnd (total - intersection);
            if union = 0 then None else rnd (intersection / union)
          }
     }"

declare calculateIOU_rounded.simps [simp del]

subsection \<open>applyNMS\<close>

text \<open>
  The test \<^verbatim>\<open>iou <= iou_threshold\<close>. A non-finite quotient comes from a positive
  intersection over a zero divisor, so it is \<^verbatim>\<open>Infinity\<close>, and the comparison with a finite
  threshold is false.
\<close>

definition iou_le :: "real option \<Rightarrow> real \<Rightarrow> bool" where
  "iou_le iou iou_threshold = (case iou of None \<Rightarrow> False | Some v \<Rightarrow> v \<le> iou_threshold)"

text \<open>
  The inner loop \<^verbatim>\<open>for (const idx of rest)\<close>: it pushes onto \<^verbatim>\<open>indexes\<close> (emptied just
  before) every \<^verbatim>\<open>idx\<close> whose box passes the test against the box of \<^verbatim>\<open>current\<close>.
\<close>

fun retain :: "detection list \<Rightarrow> real \<Rightarrow> nat \<Rightarrow> nat list \<Rightarrow> nat list \<Rightarrow> nat list" where
  "retain boxes iou_threshold current [] indexes = indexes"
| "retain boxes iou_threshold current (idx # rest) indexes =
     retain boxes iou_threshold current rest
       (if iou_le (calculateIOU (bbox (boxes ! current)) (bbox (boxes ! idx))) iou_threshold
        then indexes @ [idx] else indexes)"

lemma retain_filter:
  "retain boxes t c rest acc =
     acc @ filter (\<lambda>idx. iou_le (calculateIOU (bbox (boxes ! c)) (bbox (boxes ! idx))) t) rest"
  by (induction rest arbitrary: acc) simp_all

lemma length_retain: "length (retain boxes t c rest []) \<le> length rest"
  by (simp add: retain_filter)

text \<open>
  The outer loop \<^verbatim>\<open>while (indexes.length > 0)\<close>, on the pair of \<^verbatim>\<open>indexes\<close> and
  \<^verbatim>\<open>picked\<close>.
\<close>

function nms_loop :: "detection list \<Rightarrow> real \<Rightarrow> nat list \<Rightarrow> nat list \<Rightarrow> nat list" where
  "nms_loop boxes iou_threshold [] picked = picked"
| "nms_loop boxes iou_threshold (current # rest) picked =
     nms_loop boxes iou_threshold (retain boxes iou_threshold current rest []) (picked @ [current])"
  by pat_completeness auto
termination
  by (relation "measure (\<lambda>(boxes, t, indexes, picked). length indexes)")
     (simp_all add: length_retain le_imp_less_Suc)

text \<open>
  \<^verbatim>\<open>indexes.sort((a, b) => scores[b] - scores[a])\<close>: the comparator is negative exactly
  when \<^verbatim>\<open>a\<close> has the larger score, and \<^verbatim>\<open>Array.prototype.sort\<close> is stable, so the
  indices are sorted by descending score with equal scores left in index order. That is
  the stable sort on the key \<open>- scores ! i\<close>.
\<close>

definition sort_indexes :: "real list \<Rightarrow> nat list" where
  "sort_indexes scores = sort_key (\<lambda>i. - (scores ! i)) [0..<length scores]"

definition applyNMS :: "detection list \<Rightarrow> real list \<Rightarrow> real \<Rightarrow> nat list" where
  "applyNMS boxes scores iou_threshold = nms_loop boxes iou_threshold (sort_indexes scores) []"

text \<open>
  The call of the pipeline, \<^verbatim>\<open>applyNMS(results, results.map((r) => r.score), iou_threshold)\<close>,
  and the gathering \<^verbatim>\<open>selected_indices.map((i) => results[i])\<close>. Every index that
  \<^verbatim>\<open>applyNMS\<close> reads is below \<^verbatim>\<open>scores.length\<close>, here the length of \<^verbatim>\<open>results\<close>.
  The default \<^verbatim>\<open>iou_threshold = 0.35\<close> of \<^verbatim>\<open>applyNMS\<close> stands in when the caller passes
  none; the model takes the threshold as an argument.
\<close>

definition suppress :: "detection list \<Rightarrow> real \<Rightarrow> nat list" where
  "suppress results iou_threshold = applyNMS results (map score results) iou_threshold"

definition gather :: "detection list \<Rightarrow> nat list \<Rightarrow> detection list" where
  "gather results selected_indices = map (\<lambda>i. results ! i) selected_indices"

subsection \<open>divStride\<close>

text \<open>
  \<^verbatim>\<open>width % stride\<close> on integers is the remainder with the sign of the dividend, \<open>smod\<close>;
  \<^verbatim>\<open>stride / 2\<close> and \<^verbatim>\<open>width / stride\<close> are quotients of reals, and \<^verbatim>\<open>Math.floor\<close> is the
  floor. With \<^verbatim>\<open>stride\<close> zero the remainder is NaN and so are both results: the model
  returns \<open>None\<close>.
\<close>

definition divStride :: "int \<Rightarrow> int \<Rightarrow> int \<Rightarrow> (int \<times> int) option" where
  "divStride stride width height =
     (if stride = 0 then None
      else
        let width =
              (if real_of_int stride / 2 \<le> real_of_int (width smod stride)
               then (\<lfloor>real_of_int width / real_of_int stride\<rfloor> + 1) * stride
               else \<lfloor>real_of_int width / real_of_int stride\<rfloor> * stride);
            height =
              (if real_of_int stride / 2 \<le> real_of_int (height smod stride)
               then (\<lfloor>real_of_int height / real_of_int stride\<rfloor> + 1) * stride
               else \<lfloor>real_of_int height / real_of_int stride\<rfloor> * stride)
        in Some (width, height))"

subsection \<open>Specification-side definitions\<close>

text \<open>
  The test of one suppression round, as a relation on indices: \<open>idx\<close> passes against
  \<open>current\<close> when the IoU of the box of \<open>current\<close> with the box of \<open>idx\<close> is at most the
  threshold.
\<close>

definition passes :: "detection list \<Rightarrow> real \<Rightarrow> nat \<Rightarrow> nat \<Rightarrow> bool" where
  "passes boxes t current idx =
     iou_le (calculateIOU (bbox (boxes ! current)) (bbox (boxes ! idx))) t"

text \<open>
  Greedy suppression in the words of the specification, over any ranked list of indices
  and any test: the first remaining index is kept; of the other remaining indices
  exactly those that pass against it remain; this repeats until none remain. The kept
  indices come out in the order they were kept.
\<close>

fun greedy_nms :: "(nat \<Rightarrow> nat \<Rightarrow> bool) \<Rightarrow> nat list \<Rightarrow> nat list" where
  "greedy_nms keep [] = []"
| "greedy_nms keep (c # rest) = c # greedy_nms keep (filter (keep c) rest)"

text \<open>
  Rounding one dimension to a multiple of the stride in the words of the specification:
  down to the multiple \<open>d - d mod stride\<close>, and one stride further up when the remainder
  (the one the source computes, \<open>smod\<close>) is at least half the stride.
\<close>

definition nearest_multiple :: "int \<Rightarrow> int \<Rightarrow> int" where
  "nearest_multiple stride d =
     (if stride \<le> 2 * (d smod stride) then d - d mod stride + stride else d - d mod stride)"

subsection \<open>The loop bodies of the decoder as functions\<close>

text \<open>
  The keypoint object and the result object that one pass of the loop bodies builds, as
  functions of the two sub-arrays.
\<close>

definition keypoint_at :: "real list \<Rightarrow> nat \<Rightarrow> real \<Rightarrow> real \<Rightarrow> nat \<Rightarrow> nat \<Rightarrow> keypoint" where
  "keypoint_at kd n xr yr i k =
     \<lparr>kp_x = kd ! (k * KEYPOINT_DIMS * n + i) * xr,
      kp_y = kd ! (k * KEYPOINT_DIMS * n + i + n) * yr,
      kp_score = kd ! (k * KEYPOINT_DIMS * n + i + n * 2)\<rparr>"

definition detection_at :: "real list \<Rightarrow> real list \<Rightarrow> nat \<Rightarrow> real \<Rightarrow> real \<Rightarrow> nat \<Rightarrow> detection" where
  "detection_at bd kd n xr yr i =
     \<lparr>bbox = ((bd ! i - 0.5 * bd ! (i + n * 2)) * xr,
              (bd ! (i + n) - 0.5 * bd ! (i + n * 3)) * yr,
              bd ! (i + n * 2) * xr,
              bd ! (i + n * 3) * yr),
      score = bd ! (i + n * 4),
      keypoints = map (\<lambda>k. Some (keypoint_at kd n xr yr i k)) [0..<NUM_KEYPOINTS]\<rparr>"

subsection \<open>Example inputs\<close>

text \<open>Seventeen keypoints, all at the origin with score zero; the suppressor does not read them.\<close>

definition still_pose :: "keypoint option list" where
  "still_pose = replicate 17 (Some \<lparr>kp_x = 0, kp_y = 0, kp_score = 0\<rparr>)"

text \<open>
  The end-to-end scenario of the specification: two overlapping detections, IoU
  \<open>2025 / 2975\<close>, about \<open>0.68\<close>.
\<close>

definition scenario :: "detection list" where
  "scenario =
     [\<lparr>bbox = (10, 10, 50, 50), score = 9 / 10, keypoints = still_pose\<rparr>,
      \<lparr>bbox = (15, 15, 50, 50), score = 8 / 10, keypoints = still_pose\<rparr>]"

text \<open>
  Four detections in a row: the second overlaps the first by one half, the third and the
  fourth overlap the second by \<open>0.6\<close>; every other pair overlaps by at most \<open>0.3\<close>.
\<close>

definition crowd :: "detection list" where
  "crowd =
     [\<lparr>bbox = (0, 0, 20, 1), score = 9 / 10, keypoints = still_pose\<rparr>,
      \<lparr>bbox = (0, 0, 10, 1), score = 8 / 10, keypoints = still_pose\<rparr>,
      \<lparr>bbox = (0, 0, 6, 1), score = 7 / 10, keypoints = still_pose\<rparr>,
      \<lparr>bbox = (4, 0, 6, 1), score = 6 / 10, keypoints = still_pose\<rparr>]"

text \<open>
  A tensor of shape \<^verbatim>\<open>[1, 56, 2]\<close>: the value at offset \<open>j\<close> is \<open>j / 10\<close>, so the two
  anchors have the scores \<open>0.8\<close> and \<open>0.9\<close>.
\<close>

definition tensor :: "real list" where
  "tensor = map (\<lambda>j. real j / 10) [0..<112]"

text \<open>
  The box \<^verbatim>\<open>[0.1, 0.1, 0.2, 0.2]\<close>: its entries are the doubles nearest to \<open>1 / 10\<close> and
  \<open>1 / 5\<close>.
\<close>

definition tenth_box :: box where
  "tenth_box =
     (3602879701896397 / 36028797018963968, 3602879701896397 / 36028797018963968,
      3602879701896397 / 18014398509481984, 3602879701896397 / 18014398509481984)"

section \<open>Properties\<close>

subsection \<open>The loops of applyNMS\<close>

lemma nms_loop_greedy:
  "nms_loop boxes t xs picked = picked @ greedy_nms (passes boxes t) xs"
proof (induction boxes t xs picked rule: nms_loop.induct)
  case (1 boxes t picked)
  show ?case by simp
next
  case (2 boxes t current rest picked)
  then show ?case by (simp add: retain_filter passes_def)
qed

lemma greedy_set: "set (greedy_nms k xs) \<subseteq> set xs"
  by (induction k xs rule: greedy_nms.induct) auto

lemma greedy_distinct: "distinct xs \<Longrightarrow> distinct (greedy_nms k xs)"
proof (induction k xs rule: greedy_nms.induct)
  case (2 k c rest)
  moreover have "set (greedy_nms k (filter (k c) rest)) \<subseteq> set rest"
    using greedy_set [of k "filter (k c) rest"] by auto
  ultimately show ?case by auto
qed simp

lemma greedy_sorted_key: "sorted (map f xs) \<Longrightarrow> sorted (map f (greedy_nms k xs))"
proof (induction k xs rule: greedy_nms.induct)
  case (2 k c rest)
  have sub: "set (greedy_nms k (filter (k c) rest)) \<subseteq> set rest"
    using greedy_set [of k "filter (k c) rest"] by auto
  have "sorted (map f (filter (k c) rest))"
    using 2(2) by (simp add: sorted_filter)
  then have "sorted (map f (greedy_nms k (filter (k c) rest)))" by (rule 2(1))
  moreover have "\<forall>y\<in>set (greedy_nms k (filter (k c) rest)). f c \<le> f y"
    using 2(2) sub by auto
  ultimately show ?case by simp
qed simp

lemma greedy_pairwise: "sorted_wrt k (greedy_nms k xs)"
proof (induction k xs rule: greedy_nms.induct)
  case (2 k c rest)
  have "set (greedy_nms k (filter (k c) rest)) \<subseteq> set (filter (k c) rest)"
    by (rule greedy_set)
  then show ?case using 2 by auto
qed simp

lemma greedy_fixed: "sorted_wrt k xs \<Longrightarrow> greedy_nms k xs = xs"
proof (induction xs)
  case (Cons c rest)
  then have "filter (k c) rest = rest" by (auto intro: filter_True)
  then show ?case using Cons by simp
qed simp

lemma greedy_suppressed:
  "j \<in> set xs \<Longrightarrow> j \<notin> set (greedy_nms k xs) \<Longrightarrow> \<exists>i\<in>set (greedy_nms k xs). \<not> k i j"
proof (induction k xs rule: greedy_nms.induct)
  case (2 k c rest)
  show ?case
  proof (cases "k c j")
    case True
    with 2(2,3) have "j \<in> set (filter (k c) rest)" by auto
    moreover from 2(3) have "j \<notin> set (greedy_nms k (filter (k c) rest))" by simp
    ultimately obtain i where "i \<in> set (greedy_nms k (filter (k c) rest))" "\<not> k i j"
      using 2(1) by blast
    then show ?thesis by auto
  next
    case False
    then show ?thesis by auto
  qed
qed simp

lemma suppress_greedy:
  "suppress ds t = greedy_nms (passes ds t) (sort_indexes (map score ds))"
  by (simp add: suppress_def applyNMS_def nms_loop_greedy)

lemma sort_indexes_set: "set (sort_indexes scores) = {0..<length scores}"
  by (simp add: sort_indexes_def)

lemma sort_indexes_distinct: "distinct (sort_indexes scores)"
  by (simp add: sort_indexes_def)

lemma sort_indexes_sorted: "sorted (map (\<lambda>i. - (scores ! i)) (sort_indexes scores))"
  by (simp add: sort_indexes_def)

lemma calculateIOU_comm: "calculateIOU a b = calculateIOU b a"
proof -
  obtain x1 y1 w1 h1 where a: "a = (x1, y1, w1, h1)" by (cases a) auto
  obtain x2 y2 w2 h2 where b: "b = (x2, y2, w2, h2)" by (cases b) auto
  show ?thesis
    unfolding a b
    by (simp add: calculateIOU.simps Let_def max.commute min.commute add.commute)
qed

lemma suppress_in_range: "set (suppress ds t) \<subseteq> {0..<length ds}"
  using greedy_set [of "passes ds t" "sort_indexes (map score ds)"]
  by (simp add: suppress_greedy sort_indexes_set)

lemma suppress_distinct: "distinct (suppress ds t)"
  by (simp add: suppress_greedy greedy_distinct sort_indexes_distinct)

lemma suppress_pairwise: "sorted_wrt (passes ds t) (suppress ds t)"
  by (simp add: suppress_greedy greedy_pairwise)

lemma suppress_sorted_key:
  "sorted (map (\<lambda>i. - (map score ds ! i)) (suppress ds t))"
  unfolding suppress_greedy by (rule greedy_sorted_key) (rule sort_indexes_sorted)

lemma descending_scores:
  assumes "set xs \<subseteq> {0..<length ds}" and "sorted (map (\<lambda>i. - (map score ds ! i)) xs)"
  shows "sorted_wrt (\<lambda>i j. score (ds ! j) \<le> score (ds ! i)) xs"
proof -
  from assms(2) have "sorted_wrt (\<lambda>i j. - (map score ds ! i) \<le> - (map score ds ! j)) xs"
    by (simp add: sorted_map)
  then show ?thesis
  proof (rule sorted_wrt_mono_rel [rotated])
    fix i j assume "i \<in> set xs" "j \<in> set xs" "- (map score ds ! i) \<le> - (map score ds ! j)"
    moreover from \<open>i \<in> set xs\<close> \<open>j \<in> set xs\<close> assms(1) have "i < length ds" "j < length ds"
      by (auto dest: subsetD)
    ultimately show "score (ds ! j) \<le> score (ds ! i)" by simp
  qed
qed

subsection \<open>The suppressor is greedy NMS\<close>

lemma greedy_pair: "P a b \<Longrightarrow> greedy_nms P [a, b] = [a, b]"
  by simp

lemma passes_written_out:
  "passes ds t = (\<lambda>current idx.
      \<exists>v. calculateIOU (bbox (ds ! current)) (bbox (ds ! idx)) = Some v \<and> v \<le> t)"
  by (intro ext) (simp add: passes_def iou_le_def split: option.splits)

text \<open>
  Claim C3. For every sequence of detections and every threshold, \<open>suppress\<close> (the
  accumulating loops of \<^verbatim>\<open>applyNMS\<close>) computes greedy suppression as the specification
  words it, run on the sorted index list with the test written out: an index remains
  after a round exactly when the IoU of the just-kept box with its box is a number that
  is at most the threshold. The sorted list holds every index of the input exactly once
  and is in descending order of score. The result holds only indices of the input and is
  in descending order of score as well: selection order, highest score first. An index
  of the input that is not in the result has, against some index that is, an IoU that
  is not at most the threshold.
\<close>

theorem suppress_is_greedy_nms:
  "suppress ds t =
     greedy_nms
       (\<lambda>current idx. \<exists>v. calculateIOU (bbox (ds ! current)) (bbox (ds ! idx)) = Some v \<and> v \<le> t)
       (sort_indexes (map score ds)) \<and>
   set (sort_indexes (map score ds)) = {0..<length ds} \<and>
   distinct (sort_indexes (map score ds)) \<and>
   sorted_wrt (\<lambda>i j. score (ds ! j) \<le> score (ds ! i)) (sort_indexes (map score ds)) \<and>
   set (suppress ds t) \<subseteq> {0..<length ds} \<and>
   sorted_wrt (\<lambda>i j. score (ds ! j) \<le> score (ds ! i)) (suppress ds t) \<and>
   (\<forall>j<length ds. j \<notin> set (suppress ds t) \<longrightarrow>
      (\<exists>i\<in>set (suppress ds t).
         \<not> (\<exists>v. calculateIOU (bbox (ds ! i)) (bbox (ds ! j)) = Some v \<and> v \<le> t)))"
proof (intro conjI allI impI)
  show "suppress ds t =
     greedy_nms
       (\<lambda>current idx. \<exists>v. calculateIOU (bbox (ds ! current)) (bbox (ds ! idx)) = Some v \<and> v \<le> t)
       (sort_indexes (map score ds))"
    unfolding suppress_greedy by (simp only: passes_written_out)
  show "set (sort_indexes (map score ds)) = {0..<length ds}"
    by (simp add: sort_indexes_set)
  show "distinct (sort_indexes (map score ds))" by (rule sort_indexes_distinct)
  show "sorted_wrt (\<lambda>i j. score (ds ! j) \<le> score (ds ! i)) (sort_indexes (map score ds))"
    by (rule descending_scores) (simp_all add: sort_indexes_set sort_indexes_sorted)
  show "set (suppress ds t) \<subseteq> {0..<length ds}" by (rule suppress_in_range)
  show "sorted_wrt (\<lambda>i j. score (ds ! j) \<le> score (ds ! i)) (suppress ds t)"
    by (rule descending_scores) (simp_all add: suppress_in_range suppress_sorted_key)
next
  fix j assume "j < length ds" "j \<notin> set (suppress ds t)"
  then have "\<exists>i\<in>set (suppress ds t). \<not> passes ds t i j"
    unfolding suppress_greedy
    by (intro greedy_suppressed) (simp_all add: sort_indexes_set)
  then show "\<exists>i\<in>set (suppress ds t).
      \<not> (\<exists>v. calculateIOU (bbox (ds ! i)) (bbox (ds ! j)) = Some v \<and> v \<le> t)"
    by (simp only: passes_written_out)
qed

text \<open>
  C3 at the scenario. With the threshold equal to the IoU of the two boxes,
  \<open>2025 / 2975\<close>, the second index remains and both are kept; with threshold \<open>0.5\<close> only
  index 0 is kept, and the IoU of index 1 against it is not at most the threshold.
\<close>

theorem suppress_is_greedy_nms_witness:
  "calculateIOU (bbox (scenario ! 0)) (bbox (scenario ! 1)) = Some (2025 / 2975) \<and>
   suppress scenario (2025 / 2975) = [0, 1] \<and>
   suppress scenario (1 / 2) = [0] \<and>
   (1 :: nat) < length scenario \<and> (1 :: nat) \<notin> set [0] \<and>
   \<not> (\<exists>v. calculateIOU (bbox (scenario ! 0)) (bbox (scenario ! 1)) = Some v \<and> v \<le> 1 / 2)"
proof -
  have iou: "calculateIOU (bbox (scenario ! 0)) (bbox (scenario ! 1)) = Some (2025 / 2975)"
    by code_simp
  have order: "sort_indexes (map score scenario) = [0, 1]" by code_simp
  let ?test = "\<lambda>current idx.
      \<exists>v. calculateIOU (bbox (scenario ! current)) (bbox (scenario ! idx)) = Some v \<and> v \<le> 2025 / 2975"
  have "\<exists>v. calculateIOU (bbox (scenario ! 0)) (bbox (scenario ! 1)) = Some v \<and> v \<le> 2025 / 2975"
    by (rule exI [of _ "2025 / 2975"]) (rule conjI [OF iou order_refl])
  then have "?test 0 1" .
  then have kept: "greedy_nms ?test [0, 1] = [0, 1]" by (rule greedy_pair)
  have at_threshold: "suppress scenario (2025 / 2975) = [0, 1]"
    using suppress_is_greedy_nms [of scenario "2025 / 2975", THEN conjunct1, unfolded order]
    by (simp only: kept)
  have s: "suppress scenario (1 / 2) = [0]" by code_simp
  have l: "(1 :: nat) < length scenario" by (simp add: scenario_def)
  have n: "(1 :: nat) \<notin> set [0]" by simp
  note h = suppress_is_greedy_nms [of scenario "1 / 2", unfolded s]
  from h have "\<forall>j<length scenario. j \<notin> set [0] \<longrightarrow>
      (\<exists>i\<in>set [0]. \<not> (\<exists>v. calculateIOU (bbox (scenario ! i)) (bbox (scenario ! j)) = Some v \<and> v \<le> 1 / 2))"
    by (elim conjE)
  with l n have "\<exists>i\<in>set [0].
      \<not> (\<exists>v. calculateIOU (bbox (scenario ! i)) (bbox (scenario ! 1)) = Some v \<and> v \<le> 1 / 2)"
    by blast
  then have d: "\<not> (\<exists>v. calculateIOU (bbox (scenario ! 0)) (bbox (scenario ! 1)) = Some v \<and> v \<le> 1 / 2)"
    by simp
  from iou at_threshold s l n d show ?thesis by (intro conjI)
qed

subsection \<open>The invariant of the kept indices\<close>

text \<open>
  Claim C10. The list returned by \<open>suppress\<close> has no duplicates, each of its entries is
  an index below the length of the input, and for two entries at positions \<open>a < b\<close>
  (the entry at \<open>b\<close> was picked after the one at \<open>a\<close>) the IoU of the two boxes, taken in
  either order, is a number that is at most the threshold.
\<close>

theorem suppress_invariant:
  "distinct (suppress ds t) \<and>
   (\<forall>j\<in>set (suppress ds t). j < length ds) \<and>
   (\<forall>a b. a < b \<longrightarrow> b < length (suppress ds t) \<longrightarrow>
      (\<exists>v. calculateIOU (bbox (ds ! (suppress ds t ! b))) (bbox (ds ! (suppress ds t ! a))) = Some v
           \<and> calculateIOU (bbox (ds ! (suppress ds t ! a))) (bbox (ds ! (suppress ds t ! b))) = Some v
           \<and> v \<le> t))"
proof (intro conjI allI impI)
  show "distinct (suppress ds t)" by (rule suppress_distinct)
  show "\<forall>j\<in>set (suppress ds t). j < length ds"
    using suppress_in_range [of ds t] by auto
next
  fix a b assume "a < b" "b < length (suppress ds t)"
  with suppress_pairwise [of ds t]
  have "passes ds t (suppress ds t ! a) (suppress ds t ! b)"
    by (simp add: sorted_wrt_iff_nth_less)
  then obtain v where
    "calculateIOU (bbox (ds ! (suppress ds t ! a))) (bbox (ds ! (suppress ds t ! b))) = Some v"
    "v \<le> t"
    by (auto simp: passes_def iou_le_def split: option.splits)
  then show "\<exists>v. calculateIOU (bbox (ds ! (suppress ds t ! b))) (bbox (ds ! (suppress ds t ! a))) = Some v
           \<and> calculateIOU (bbox (ds ! (suppress ds t ! a))) (bbox (ds ! (suppress ds t ! b))) = Some v
           \<and> v \<le> t"
    by (simp add: calculateIOU_comm)
qed

text \<open>
  The invariant at the scenario with threshold \<open>0.7\<close>: both indices are kept, and the
  IoU of the second box against the first is at most the threshold.
\<close>

theorem suppress_invariant_witness:
  "suppress scenario (7 / 10) = [0, 1] \<and> distinct [0, 1 :: nat] \<and> length scenario = 2 \<and>
   calculateIOU (bbox (scenario ! 1)) (bbox (scenario ! 0)) = Some (2025 / 2975) \<and>
   (2025 / 2975 :: real) \<le> 7 / 10"
proof -
  have s: "suppress scenario (7 / 10) = [0, 1]" by code_simp
  have l: "length scenario = 2" by (simp add: scenario_def)
  have i: "calculateIOU (bbox (scenario ! 1)) (bbox (scenario ! 0)) = Some (2025 / 2975)"
    by code_simp
  note h = suppress_invariant [of scenario "7 / 10", unfolded s,
      THEN conjunct2, THEN conjunct2, rule_format, of 0 1]
  from h have "\<exists>v. calculateIOU (bbox (scenario ! 1)) (bbox (scenario ! 0)) = Some v \<and> v \<le> 7 / 10"
    by auto
  with i have "(2025 / 2975 :: real) \<le> 7 / 10" by simp
  with s l i show ?thesis by simp
qed

subsection \<open>Suppressing twice\<close>

lemma suppress_gather:
  "suppress (gather ds (suppress ds t)) t = [0..<length (suppress ds t)]"
proof -
  define sel where "sel = suppress ds t"
  define ds' where "ds' = gather ds sel"
  have len: "length ds' = length sel" by (simp add: ds'_def gather_def)
  have nth: "ds' ! i = ds ! (sel ! i)" if "i < length sel" for i
    using that by (simp add: ds'_def gather_def)
  have rng: "sel ! i < length ds" if "i < length sel" for i
  proof -
    from that have "sel ! i \<in> set (suppress ds t)" by (simp add: sel_def)
    with suppress_in_range [of ds t] show ?thesis by (auto dest: subsetD)
  qed
  have "map (\<lambda>i. - (map score ds' ! i)) [0..<length ds'] = map (\<lambda>j. - (map score ds ! j)) sel"
    by (rule nth_equalityI) (simp_all add: len nth rng)
  then have "sorted (map (\<lambda>i. - (map score ds' ! i)) [0..<length ds'])"
    using suppress_sorted_key [of ds t] by (simp add: sel_def)
  then have order: "sort_indexes (map score ds') = [0..<length sel]"
    by (simp add: sort_indexes_def sort_key_id_if_sorted len)
  have "sorted_wrt (passes ds' t) [0..<length sel]"
  proof -
    have "passes ds' t i j" if "i < j" "j < length sel" for i j
    proof -
      from that suppress_pairwise [of ds t] have "passes ds t (sel ! i) (sel ! j)"
        by (simp add: sorted_wrt_iff_nth_less sel_def)
      with that show ?thesis by (simp add: passes_def nth)
    qed
    then show ?thesis by (simp add: sorted_wrt_iff_nth_less)
  qed
  then have "greedy_nms (passes ds' t) [0..<length sel] = [0..<length sel]"
    by (rule greedy_fixed)
  with order show ?thesis
    by (simp add: suppress_greedy sel_def ds'_def)
qed

text \<open>
  Claim C7. When the detections selected by a first call of \<open>suppress\<close> are gathered, in
  selection order, into a new sequence and \<open>suppress\<close> runs on it with the same
  threshold, the second call returns every index of that sequence, in order; gathering
  again gives the same detections as the first pass.
\<close>

theorem suppress_idempotent:
  "suppress (gather ds (suppress ds t)) t = [0..<length (gather ds (suppress ds t))] \<and>
   gather (gather ds (suppress ds t)) (suppress (gather ds (suppress ds t)) t)
     = gather ds (suppress ds t)"
proof -
  have l: "length (gather ds (suppress ds t)) = length (suppress ds t)"
    by (simp add: gather_def)
  have "gather xs [0..<length xs] = xs" for xs :: "detection list"
    by (simp add: gather_def map_nth)
  from this [of "gather ds (suppress ds t)"] show ?thesis
    by (simp add: suppress_gather l)
qed

subsection \<open>Properties of calculateIOU\<close>







lemma calculateIOU_self:
  assumes "0 < w" "0 < h"
  shows "calculateIOU (x, y, w, h) (x, y, w, h) = Some 1"
  using assms by (simp add: calculateIOU.simps Let_def js_div_def)


subsection \<open>calculateIOU on doubles: symmetry and the IoU of a box with itself\<close>

lemma round_half_even_of_int: "round_half_even (of_int n) = n"
  by (simp add: round_half_even_def)

lemma round_half_even_bounds:
  "\<lfloor>q\<rfloor> \<le> round_half_even q" "round_half_even q \<le> \<lfloor>q\<rfloor> + 1"
  by (simp_all add: round_half_even_def Let_def)

lemma round_half_even_le: "q \<le> of_int m \<Longrightarrow> round_half_even q \<le> m"
proof -
  assume q: "q \<le> of_int m"
  show ?thesis
  proof (cases "q = of_int m")
    case True
    then show ?thesis by (simp add: round_half_even_of_int)
  next
    case False
    with q have "q < of_int m" by simp
    then have "\<lfloor>q\<rfloor> < m" by (simp add: floor_less_iff)
    with round_half_even_bounds(2) [of q] show ?thesis by linarith
  qed
qed

lemma round_half_even_ge: "of_int m \<le> q \<Longrightarrow> m \<le> round_half_even q"
proof -
  assume "of_int m \<le> q"
  then have "m \<le> \<lfloor>q\<rfloor>" by (simp add: le_floor_iff)
  with round_half_even_bounds(1) [of q] show ?thesis by linarith
qed

lemma binary_exponent_bounds:
  assumes "0 < x"
  shows "2 powi binary_exponent x \<le> x" and "x < 2 powi (binary_exponent x + 1)"
proof -
  have "2 powi binary_exponent x \<le> x \<and> x < 2 powi (binary_exponent x + 1)"
  proof (cases "1 \<le> x")
    case True
    define m where "m = \<lfloor>x\<rfloor>"
    from True have m: "0 < m" by (simp add: m_def)
    then have b: "1 \<le> bitlen m" by (simp add: bitlen_alt_def)
    from bitlen_bounds [OF m] have lo: "2 ^ nat (bitlen m - 1) \<le> m" and hi: "m < 2 ^ nat (bitlen m)"
      by simp_all
    have e: "binary_exponent x = bitlen m - 1" using True by (simp add: binary_exponent_def m_def)
    have "real_of_int (2 ^ nat (bitlen m - 1)) \<le> real_of_int m" using lo by (simp only: of_int_le_iff)
    then have "2 ^ nat (bitlen m - 1) \<le> real_of_int m" by simp
    moreover have "real_of_int m \<le> x" by (simp add: m_def)
    ultimately have "2 ^ nat (bitlen m - 1) \<le> x" by linarith
    then have 1: "2 powi (bitlen m - 1) \<le> x" using b by (simp add: power_int_def)
    from hi have "m + 1 \<le> 2 ^ nat (bitlen m)" by simp
    then have "real_of_int (m + 1) \<le> real_of_int (2 ^ nat (bitlen m))" by (simp only: of_int_le_iff)
    then have "real_of_int m + 1 \<le> 2 ^ nat (bitlen m)" by simp
    moreover have "x < real_of_int m + 1" unfolding m_def by linarith
    ultimately have "x < 2 ^ nat (bitlen m)" by linarith
    then have 2: "x < 2 powi (bitlen m - 1 + 1)" using b by (simp add: power_int_def)
    from 1 2 show ?thesis by (simp only: e)
  next
    case False
    define c where "c = \<lceil>1 / x\<rceil>"
    from False assms have y: "1 < 1 / x" by simp
    then have c2: "2 \<le> c" unfolding c_def by (simp add: le_ceiling_iff)
    then have m: "0 < c - 1" by simp
    define k where "k = bitlen (c - 1)"
    from m have b: "1 \<le> k" by (simp add: bitlen_alt_def k_def)
    from bitlen_bounds [OF m] have lo: "2 ^ nat (k - 1) \<le> c - 1" and hi: "c - 1 < 2 ^ nat k"
      by (simp_all add: k_def)
    have e: "binary_exponent x = - k" using False by (simp add: binary_exponent_def c_def k_def)
    from hi have "c \<le> 2 ^ nat k" by simp
    then have "real_of_int c \<le> real_of_int (2 ^ nat k)" by (simp only: of_int_le_iff)
    then have "real_of_int c \<le> 2 ^ nat k" by simp
    moreover have "1 / x \<le> real_of_int c" by (simp add: c_def)
    ultimately have "1 / x \<le> 2 ^ nat k" by linarith
    then have "1 \<le> 2 ^ nat k * x" using assms by (simp add: field_simps)
    then have "1 / 2 ^ nat k \<le> x" by (simp add: field_simps)
    then have 1: "2 powi (- k) \<le> x" using b by (simp add: power_int_def inverse_eq_divide power_one_over [symmetric] del: power_one_over)
    have "real_of_int (2 ^ nat (k - 1)) \<le> real_of_int (c - 1)" using lo by (simp only: of_int_le_iff)
    then have "2 ^ nat (k - 1) \<le> real_of_int c - 1" by simp
    moreover have "real_of_int c - 1 < 1 / x" unfolding c_def by linarith
    ultimately have "2 ^ nat (k - 1) < 1 / x" by linarith
    then have "2 ^ nat (k - 1) * x < 1" using assms by (simp add: field_simps)
    then have "x < 1 / 2 ^ nat (k - 1)" by (simp add: field_simps)
    then have 2: "x < 2 powi (- k + 1)" using b
      by (cases "k = 1") (simp_all add: power_int_def inverse_eq_divide power_one_over [symmetric] nat_diff_distrib del: power_one_over)
    from 1 2 show ?thesis by (simp only: e)
  qed
  then show "2 powi binary_exponent x \<le> x" and "x < 2 powi (binary_exponent x + 1)" by simp_all
qed


lemma two_powi_less_cancel: "(2 :: real) powi a < 2 powi b \<Longrightarrow> a < b"
proof (rule ccontr)
  assume "2 powi a < (2 :: real) powi b" and "\<not> a < b"
  then have "b \<le> a" by simp
  then have "(2 :: real) powi b \<le> 2 powi a" by (rule power_int_increasing) simp
  with \<open>2 powi a < (2 :: real) powi b\<close> show False by simp
qed

lemma two_powi_split: "(2 :: real) powi (a + b) = 2 powi a * 2 powi b"
  by (rule power_int_add) simp

lemma two_powi_nonneg_int: "0 \<le> k \<Longrightarrow> (2 :: real) powi k = of_int (2 ^ nat k)"
  by (simp add: power_int_def)

lemma binary64_nonzero:
  "x \<noteq> 0 \<Longrightarrow> binary64 x =
     (if overflow_threshold
           \<le> \<bar>real_of_int (round_half_even (x / 2 powi unit_exponent x)) * 2 powi unit_exponent x\<bar>
      then None
      else Some (real_of_int (round_half_even (x / 2 powi unit_exponent x)) * 2 powi unit_exponent x))"
  by (simp add: binary64_def unit_exponent_def Let_def)

lemma unit_exponent_ge: "- 1074 \<le> unit_exponent x"
  by (simp add: unit_exponent_def)

lemma scaled_less:
  assumes "x \<noteq> 0"
  shows "\<bar>x / 2 powi unit_exponent x\<bar> < 2 ^ 53"
proof -
  let ?E = "binary_exponent \<bar>x\<bar>"
  from assms have "\<bar>x\<bar> < 2 powi (?E + 1)" by (intro binary_exponent_bounds) simp
  also have "(2 :: real) powi (?E + 1) \<le> 2 powi (unit_exponent x + 53)"
    by (rule power_int_increasing) (simp_all add: unit_exponent_def)
  also have "\<dots> = 2 powi unit_exponent x * 2 ^ 53"
    by (simp add: two_powi_split)
  finally have "\<bar>x\<bar> < 2 powi unit_exponent x * 2 ^ 53" .
  then have "\<bar>x\<bar> / 2 powi unit_exponent x < 2 ^ 53"
    by (simp add: field_simps)
  then show ?thesis by (simp add: abs_divide del: power_numeral)
qed

lemma binary64_form:
  assumes "binary64 p = Some A"
  shows "\<exists>n k. A = of_int n * 2 powi k \<and> \<bar>n\<bar> \<le> 2 ^ 53 \<and> - 1074 \<le> k \<and> \<bar>A\<bar> < overflow_threshold"
proof (cases "p = 0")
  case True
  with assms have "A = 0" by (simp add: binary64_def)
  then have "A = of_int 0 * 2 powi 0 \<and> \<bar>0 :: int\<bar> \<le> 2 ^ 53 \<and> - 1074 \<le> (0 :: int) \<and> \<bar>A\<bar> < overflow_threshold"
    by (simp add: overflow_threshold_def)
  then show ?thesis by blast
next
  case False
  let ?k = "unit_exponent p"
  let ?n = "round_half_even (p / 2 powi ?k)"
  from assms False have A: "A = of_int ?n * 2 powi ?k" and fin: "\<bar>A\<bar> < overflow_threshold"
    by (simp_all add: binary64_nonzero split: if_splits)
  define q where "q = p / 2 powi ?k"
  have a: "\<bar>q\<bar> < 2 ^ 53" unfolding q_def by (rule scaled_less [OF False])
  have r: "real_of_int (2 ^ 53) = 2 ^ 53" by simp
  from a have "q \<le> real_of_int (2 ^ 53)" unfolding r by linarith
  then have up: "?n \<le> 2 ^ 53" unfolding q_def by (rule round_half_even_le)
  from a have "real_of_int (- (2 ^ 53)) \<le> q" unfolding of_int_minus r by linarith
  then have lo: "- (2 ^ 53) \<le> ?n" unfolding q_def by (rule round_half_even_ge)
  from up lo
  have "\<bar>?n\<bar> \<le> 2 ^ 53" by (simp only: abs_le_iff) simp
  with A fin unit_exponent_ge [of p] show ?thesis by blast
qed

lemma binary64_exact:
  assumes A: "A = of_int n * 2 powi k" and n: "\<bar>n\<bar> \<le> 2 ^ 53" and k: "- 1074 \<le> k"
    and fin: "\<bar>A\<bar> < overflow_threshold"
  shows "binary64 A = Some A"
proof (cases "A = 0")
  case True
  then show ?thesis by (simp add: binary64_def)
next
  case False
  define E where "E = binary_exponent \<bar>A\<bar>"
  define u where "u = unit_exponent A"
  have uE: "u = max E (- 1022) - 52" by (simp add: u_def E_def unit_exponent_def)
  from False have pos: "0 < \<bar>A\<bar>" by simp
  have E: "2 powi E \<le> \<bar>A\<bar>" "\<bar>A\<bar> < 2 powi (E + 1)"
    unfolding E_def by (rule binary_exponent_bounds [OF pos])+
  have absA: "\<bar>A\<bar> = of_int \<bar>n\<bar> * 2 powi k" by (simp add: A abs_mult)
  have "\<exists>m. A / 2 powi u = of_int m"
  proof (cases "\<bar>n\<bar> = 2 ^ 53")
    case True
    then have "\<bar>A\<bar> = 2 powi (k + 53)" by (simp add: absA two_powi_split)
    with E have le: "2 powi E \<le> (2 :: real) powi (k + 53)"
      and less: "(2 :: real) powi (k + 53) < 2 powi (E + 1)"
      by simp_all
    from less have "k + 53 < E + 1" by (rule two_powi_less_cancel)
    moreover have "\<not> k + 53 < E"
    proof
      assume "k + 53 < E"
      then have "(2 :: real) powi (k + 53) < 2 powi E" by (rule power_int_strict_increasing) simp
      with le show False by simp
    qed
    ultimately
    have "E = k + 53" by simp
    with k have u: "u = k + 1" by (simp add: uE)
    have "even (2 ^ 53 :: int)" by simp
    with True have "even \<bar>n\<bar>" by (simp only:)
    then have "even n" by simp
    then obtain m where m: "n = 2 * m" by (elim evenE)
    have "A = of_int m * 2 powi (k + 1)" by (simp add: A m two_powi_split)
    then have "A / 2 powi u = of_int m" by (simp add: u)
    then show ?thesis ..
  next
    case False
    with n have "\<bar>n\<bar> < 2 ^ 53" by simp
    then have "real_of_int \<bar>n\<bar> < real_of_int (2 ^ 53)" by (simp only: of_int_less_iff)
    then have "real_of_int \<bar>n\<bar> * 2 powi k < real_of_int (2 ^ 53) * 2 powi k"
      by (rule mult_strict_right_mono) simp
    also have "real_of_int (2 ^ 53) * 2 powi k = 2 powi (k + 53)"
      by (simp add: two_powi_split)
    finally have "\<bar>A\<bar> < 2 powi (k + 53)" by (simp only: absA)
    with E(1) have "(2 :: real) powi E < 2 powi (k + 53)" by linarith
    then have "E < k + 53" by (rule two_powi_less_cancel)
    with k have u: "u \<le> k" by (simp add: uE)
    then have "(2 :: real) powi (k - u) = of_int (2 ^ nat (k - u))"
      by (intro two_powi_nonneg_int) simp
    moreover have "A / 2 powi u = of_int n * 2 powi (k - u)"
      by (simp add: A power_int_diff)
    ultimately have "A / 2 powi u = of_int (n * 2 ^ nat (k - u))" by simp
    then show ?thesis ..
  qed
  then obtain m where m: "A / 2 powi u = of_int m" ..
  then have "of_int (round_half_even (A / 2 powi u)) * 2 powi u = A"
    by (simp add: round_half_even_of_int field_simps)
  with fin \<open>A \<noteq> 0\<close> show ?thesis by (simp add: binary64_nonzero u_def)
qed

lemma binary64_idem: "binary64 p = Some A \<Longrightarrow> binary64 A = Some A"
  using binary64_form [of p A] binary64_exact by blast

lemma binary64_double:
  assumes "binary64 p = Some A" and "\<bar>A + A\<bar> < overflow_threshold"
  shows "binary64 (A + A) = Some (A + A)"
proof -
  from binary64_form [OF assms(1)] obtain n k where
    A: "A = of_int n * 2 powi k" and n: "\<bar>n\<bar> \<le> 2 ^ 53" and k: "- 1074 \<le> k"
    by blast
  have "A + A = of_int n * 2 powi (k + 1)" by (simp add: A two_powi_split)
  moreover from k have "- 1074 \<le> k + 1" by simp
  ultimately show ?thesis using n assms(2) by (intro binary64_exact)
qed

lemma binary64_sign:
  assumes "binary64 p = Some w" and "0 < w"
  shows "0 < p"
proof (rule ccontr)
  assume "\<not> 0 < p"
  moreover from assms have "p \<noteq> 0" by (auto simp: binary64_def)
  ultimately have neg: "p < 0" by simp
  then have "p / 2 powi unit_exponent p \<le> of_int 0" by (simp add: divide_nonpos_pos)
  then have "round_half_even (p / 2 powi unit_exponent p) \<le> 0" by (rule round_half_even_le)
  then have "of_int (round_half_even (p / 2 powi unit_exponent p)) * (2 :: real) powi unit_exponent p \<le> 0"
    by (simp add: mult_nonpos_nonneg)
  with assms \<open>p \<noteq> 0\<close> show False by (simp add: binary64_nonzero split: if_splits)
qed

lemma binary64_one: "binary64 1 = Some 1"
  using binary64_exact [of 1 1 0] by (simp add: overflow_threshold_def)



lemma calculateIOU_rounded_comm:
  "calculateIOU_rounded rnd a b = calculateIOU_rounded rnd b a"
proof -
  obtain x1 y1 w1 h1 where a: "a = (x1, y1, w1, h1)" by (cases a) auto
  obtain x2 y2 w2 h2 where b: "b = (x2, y2, w2, h2)" by (cases b) auto
  show ?thesis
    unfolding a b calculateIOU_rounded.simps
    by (cases "rnd (x1 + w1)"; cases "rnd (y1 + h1)"; cases "rnd (x2 + w2)";
        cases "rnd (y2 + h2)"; cases "rnd (w1 * h1)"; cases "rnd (w2 * h2)";
        simp add: Let_def max.commute min.commute add.commute)
qed

lemma calculateIOU_rounded_self:
  assumes w: "0 < w" and h: "0 < h"
    and xw: "binary64 (x + w) = Some xw" and dx: "binary64 (xw - x) = Some w"
    and yh: "binary64 (y + h) = Some yh" and dy: "binary64 (yh - y) = Some h"
    and area: "binary64 (w * h) = Some A" and nz: "A \<noteq> 0"
    and fin: "\<bar>A + A\<bar> < overflow_threshold"
  shows "calculateIOU_rounded binary64 (x, y, w, h) (x, y, w, h) = Some 1"
proof -
  from binary64_sign [OF dx w] have 1: "\<not> xw \<le> x" by simp
  from binary64_sign [OF dy h] have 2: "\<not> yh \<le> y" by simp
  from binary64_double [OF area fin] have total: "binary64 (2 * A) = Some (2 * A)" by simp
  note union = binary64_idem [OF area]
  show ?thesis
    by (simp add: calculateIOU_rounded.simps xw yh dx dy area total union 1 2 nz binary64_one)
qed

lemma binary_exponent_unique:
  assumes "0 < x" and "2 powi e \<le> x" and "x < 2 powi (e + 1)"
  shows "binary_exponent x = e"
proof -
  note E = binary_exponent_bounds [OF assms(1)]
  from E(1) assms(3) have "(2 :: real) powi binary_exponent x < 2 powi (e + 1)" by linarith
  then have "binary_exponent x < e + 1" by (rule two_powi_less_cancel)
  moreover from assms(2) E(2) have "(2 :: real) powi e < 2 powi (binary_exponent x + 1)" by linarith
  then have "e < binary_exponent x + 1" by (rule two_powi_less_cancel)
  ultimately show ?thesis by simp
qed

lemma binary64_normal:
  assumes "2 powi e \<le> \<bar>x\<bar>" and "\<bar>x\<bar> < 2 powi (e + 1)" and "- 1022 \<le> e"
    and "round_half_even (x / 2 powi (e - 52)) = n"
    and "\<bar>real_of_int n * 2 powi (e - 52)\<bar> < overflow_threshold"
  shows "binary64 x = Some (real_of_int n * 2 powi (e - 52))"
proof -
  have "0 < (2 :: real) powi e" by simp
  with assms(1) have pos: "0 < \<bar>x\<bar>" by linarith
  then have "x \<noteq> 0" by simp
  moreover have "unit_exponent x = e - 52"
    using binary_exponent_unique [OF pos assms(1,2)] assms(3) by (simp add: unit_exponent_def)
  ultimately show ?thesis using assms(4,5) by (simp add: binary64_nonzero)
qed

lemma tenth_sum: "binary64 (10808639105689191 / 36028797018963968) = Some (1351079888211149 / 4503599627370496)"
  using binary64_normal [of "- 2" "10808639105689191 / 36028797018963968" 5404319552844596]
  by (simp add: round_half_even_def overflow_threshold_def)

lemma tenth_diff: "binary64 (7205759403792795 / 36028797018963968) = Some (7205759403792795 / 36028797018963968)"
  using binary64_normal [of "- 3" "7205759403792795 / 36028797018963968" 7205759403792795]
  by (simp add: round_half_even_def overflow_threshold_def)

lemma tenth_inter: "binary64 (51922968585348296461431293912025 / 1298074214633706907132624082305024) = Some (5764607523034237 / 144115188075855872)"
  using binary64_normal [of "- 5" "51922968585348296461431293912025 / 1298074214633706907132624082305024" 5764607523034237]
  by (simp add: round_half_even_def overflow_threshold_def)

lemma tenth_area: "binary64 (12980742146337070512478121581609 / 324518553658426726783156020576256) = Some (1441151880758559 / 36028797018963968)"
  using binary64_normal [of "- 5" "12980742146337070512478121581609 / 324518553658426726783156020576256" 5764607523034236]
  by (simp add: round_half_even_def overflow_threshold_def)

lemma tenth_total: "binary64 (1441151880758559 / 18014398509481984) = Some (1441151880758559 / 18014398509481984)"
  using binary64_normal [of "- 4" "1441151880758559 / 18014398509481984" 5764607523034236]
  by (simp add: round_half_even_def overflow_threshold_def)

lemma tenth_union: "binary64 (5764607523034235 / 144115188075855872) = Some (5764607523034235 / 144115188075855872)"
  using binary64_normal [of "- 5" "5764607523034235 / 144115188075855872" 5764607523034235]
  by (simp add: round_half_even_def overflow_threshold_def)

lemma tenth_quot: "binary64 (5764607523034237 / 5764607523034235) = Some (2251799813685249 / 2251799813685248)"
  using binary64_normal [of "0" "5764607523034237 / 5764607523034235" 4503599627370498]
  by (simp add: round_half_even_def overflow_threshold_def)

lemma tenth_box_value:
  "calculateIOU_rounded binary64 tenth_box tenth_box = Some (2251799813685249 / 2251799813685248)"
  by (simp add: calculateIOU_rounded.simps tenth_box_def
        tenth_sum tenth_diff tenth_inter tenth_area tenth_total tenth_union tenth_quot)

lemma calculateIOU_rounded_exact: "calculateIOU_rounded Some a b = calculateIOU a b"
proof -
  obtain x1 y1 w1 h1 where a: "a = (x1, y1, w1, h1)" by (cases a) auto
  obtain x2 y2 w2 h2 where b: "b = (x2, y2, w2, h2)" by (cases b) auto
  show ?thesis
    unfolding a b by (simp add: calculateIOU_rounded.simps calculateIOU.simps Let_def js_div_def)
qed

lemma tenth_x: "binary64 (1 / 10) = Some (3602879701896397 / 36028797018963968)"
  using binary64_normal [of "- 4" "1 / 10" 7205759403792794]
  by (simp add: round_half_even_def overflow_threshold_def)

lemma tenth_w: "binary64 (1 / 5) = Some (3602879701896397 / 18014398509481984)"
  using binary64_normal [of "- 3" "1 / 5" 7205759403792794]
  by (simp add: round_half_even_def overflow_threshold_def)

text \<open>
  Claim C8 as stated fails on doubles. For the box \<^verbatim>\<open>[0.1, 0.1, 0.2, 0.2]\<close> the sum
  \<open>x + w\<close> is rounded (a tie, to \<open>0.30000000000000004\<close>), the difference
  \<open>(x + w) - x\<close> is \<open>0.20000000000000004\<close> and no longer the width, and the IoU of the
  box with itself comes out as \<open>1 + 2 powi (- 51)\<close>, which JavaScript prints as
  \<open>1.0000000000000004\<close>.
\<close>

theorem calculateIOU_self_not_one:
  "binary64 (1 / 10) = Some (3602879701896397 / 36028797018963968) \<and>
   binary64 (1 / 5) = Some (3602879701896397 / 18014398509481984) \<and>
   tenth_box = (3602879701896397 / 36028797018963968, 3602879701896397 / 36028797018963968,
                3602879701896397 / 18014398509481984, 3602879701896397 / 18014398509481984) \<and>
   (0 :: real) < 3602879701896397 / 18014398509481984 \<and>
   calculateIOU_rounded binary64 tenth_box tenth_box = Some (2251799813685249 / 2251799813685248) \<and>
   calculateIOU_rounded binary64 tenth_box tenth_box \<noteq> Some 1"
  by (simp add: tenth_x tenth_w tenth_box_value) (simp add: tenth_box_def)

text \<open>
  Claim C8, amended. The IoU of two boxes does not depend on their order: on doubles,
  under any rounding of the arithmetic, and in exact arithmetic, which is the rounded
  computation with the identity for rounding. The IoU of a box of positive width and
  height with itself is 1 in exact arithmetic. On doubles it is 1 when the width and
  the height come back exactly from the edges (\<open>(x + w) - x\<close> rounds to \<open>w\<close> and
  \<open>(y + h) - y\<close> rounds to \<open>h\<close>), the rounded area is not zero and twice the rounded
  area is below \<open>2 ^ 1024\<close>.
\<close>

theorem calculateIOU_rounded_symmetric_reflexive:
  "calculateIOU_rounded rnd a b = calculateIOU_rounded rnd b a \<and>
   calculateIOU_rounded Some a b = calculateIOU a b \<and>
   calculateIOU a b = calculateIOU b a \<and>
   (0 < w \<and> 0 < h \<longrightarrow> calculateIOU (x, y, w, h) (x, y, w, h) = Some 1) \<and>
   (0 < w \<and> 0 < h \<and>
    binary64 (x + w) = Some xw \<and> binary64 (xw - x) = Some w \<and>
    binary64 (y + h) = Some yh \<and> binary64 (yh - y) = Some h \<and>
    binary64 (w * h) = Some A \<and> A \<noteq> 0 \<and> \<bar>A + A\<bar> < overflow_threshold
    \<longrightarrow> calculateIOU_rounded binary64 (x, y, w, h) (x, y, w, h) = Some 1)"
proof (intro conjI impI)
  show "calculateIOU_rounded rnd a b = calculateIOU_rounded rnd b a"
    by (rule calculateIOU_rounded_comm)
  show "calculateIOU_rounded Some a b = calculateIOU a b"
    by (rule calculateIOU_rounded_exact)
  show "calculateIOU a b = calculateIOU b a" by (rule calculateIOU_comm)
  show "calculateIOU (x, y, w, h) (x, y, w, h) = Some 1" if "0 < w \<and> 0 < h"
    using that by (simp add: calculateIOU_self)
  show "calculateIOU_rounded binary64 (x, y, w, h) (x, y, w, h) = Some 1"
    if "0 < w \<and> 0 < h \<and>
        binary64 (x + w) = Some xw \<and> binary64 (xw - x) = Some w \<and>
        binary64 (y + h) = Some yh \<and> binary64 (yh - y) = Some h \<and>
        binary64 (w * h) = Some A \<and> A \<noteq> 0 \<and> \<bar>A + A\<bar> < overflow_threshold"
    using that by (elim conjE) (rule calculateIOU_rounded_self)
qed

lemma binary64_small_int: "\<bar>n\<bar> \<le> 2 ^ 53 \<Longrightarrow> binary64 (of_int n) = Some (of_int n)"
proof -
  assume n: "\<bar>n\<bar> \<le> 2 ^ 53"
  then have "real_of_int \<bar>n\<bar> \<le> real_of_int (2 ^ 53)" by (simp only: of_int_le_iff)
  then have "\<bar>real_of_int n\<bar> \<le> 2 ^ 53" by simp
  also have "(2 :: real) ^ 53 < 2 ^ 1024" by (rule power_strict_increasing) simp_all
  finally have "\<bar>real_of_int n\<bar> < overflow_threshold" by (simp only: overflow_threshold_def)
  with n show ?thesis by (intro binary64_exact [of _ n 0]) simp_all
qed

text \<open>
  The amended statement at the boxes of the scenario and at the box
  \<^verbatim>\<open>[10, 10, 50, 50]\<close>, whose sums, differences and area are exact.
\<close>

theorem calculateIOU_rounded_symmetric_reflexive_witness:
  "calculateIOU_rounded binary64 (10, 10, 50, 50) (15, 15, 50, 50)
     = calculateIOU_rounded binary64 (15, 15, 50, 50) (10, 10, 50, 50) \<and>
   (0 :: real) < 50 \<and>
   binary64 (10 + 50) = Some 60 \<and> binary64 (60 - 10) = Some 50 \<and>
   binary64 (50 * 50) = Some 2500 \<and> (2500 :: real) \<noteq> 0 \<and>
   \<bar>2500 + 2500 :: real\<bar> < overflow_threshold \<and>
   calculateIOU (10, 10, 50, 50) (10, 10, 50, 50) = Some 1 \<and>
   calculateIOU_rounded binary64 (10, 10, 50, 50) (10, 10, 50, 50) = Some 1"
proof -
  have p: "(0 :: real) < 50" by simp
  have s: "binary64 (10 + 50) = Some 60" using binary64_small_int [of 60] by simp
  have d: "binary64 (60 - 10) = Some 50" using binary64_small_int [of 50] by simp
  have a: "binary64 (50 * 50) = Some 2500" using binary64_small_int [of 2500] by simp
  have nz: "(2500 :: real) \<noteq> 0" by simp
  have f: "\<bar>2500 + 2500 :: real\<bar> < overflow_threshold" by (simp add: overflow_threshold_def)
  note t = calculateIOU_rounded_symmetric_reflexive
      [of binary64 "(10, 10, 50, 50)" "(15, 15, 50, 50)" 50 50 10 10 60 60 2500]
  from t have 1: "calculateIOU_rounded binary64 (10, 10, 50, 50) (15, 15, 50, 50)
     = calculateIOU_rounded binary64 (15, 15, 50, 50) (10, 10, 50, 50)"
    by (elim conjE)
  from t p have 2: "calculateIOU (10, 10, 50, 50) (10, 10, 50, 50) = Some 1"
    by (elim conjE) simp
  from t p s d a nz f have 3: "calculateIOU_rounded binary64 (10, 10, 50, 50) (10, 10, 50, 50) = Some 1"
    by (elim conjE) (erule mp, intro conjI)
  from 1 p s d a nz f 2 3 show ?thesis by (intro conjI)
qed

subsection \<open>The threshold and the number of kept indices\<close>

text \<open>
  Claim C6 as stated fails. At threshold \<open>0.4\<close> the first detection removes the second,
  and the third and fourth are kept: three indices. At the larger threshold \<open>0.55\<close> the
  second survives and removes the third and the fourth: two indices.
\<close>

theorem suppress_not_monotone:
  "(2 / 5 :: real) \<le> 11 / 20 \<and>
   suppress crowd (2 / 5) = [0, 2, 3] \<and>
   suppress crowd (11 / 20) = [0, 1] \<and>
   \<not> length (suppress crowd (2 / 5)) \<le> length (suppress crowd (11 / 20))"
proof -
  have a: "suppress crowd (2 / 5) = [0, 2, 3]" by code_simp
  have b: "suppress crowd (11 / 20) = [0, 1]" by code_simp
  show ?thesis by (simp add: a b)
qed

lemma iou_le_mono: "t1 \<le> t2 \<Longrightarrow> iou_le r t1 \<Longrightarrow> iou_le r t2"
  by (auto simp: iou_le_def split: option.splits)

lemma passes_mono: "t1 \<le> t2 \<Longrightarrow> passes ds t1 c j \<Longrightarrow> passes ds t2 c j"
  unfolding passes_def by (rule iou_le_mono)

lemma greedy_mono_small:
  assumes imp: "\<And>a b. k1 a b \<Longrightarrow> k2 a b" and len: "length xs \<le> 3"
  shows "length (greedy_nms k1 xs) \<le> length (greedy_nms k2 xs)"
proof (cases xs)
  case Nil
  then show ?thesis by simp
next
  case xs: (Cons a ys)
  show ?thesis
  proof (cases ys)
    case Nil
    with xs show ?thesis by simp
  next
    case ys: (Cons b zs)
    show ?thesis
    proof (cases zs)
      case Nil
      with xs ys show ?thesis using imp by auto
    next
      case (Cons c us)
      with xs ys len have "xs = [a, b, c]" by simp
      then show ?thesis using imp by auto
    qed
  qed
qed

lemma retain_mono:
  assumes "t1 \<le> t2"
  shows "set (retain ds t1 c rest []) \<subseteq> set (retain ds t2 c rest [])"
    and "length (retain ds t1 c rest []) \<le> length (retain ds t2 c rest [])"
proof -
  note imp = iou_le_mono [OF assms]
  show "set (retain ds t1 c rest []) \<subseteq> set (retain ds t2 c rest [])"
    by (auto simp: retain_filter imp)
  show "length (retain ds t1 c rest []) \<le> length (retain ds t2 c rest [])"
    unfolding retain_filter append_Nil
    by (induction rest) (auto simp: imp)
qed

text \<open>
  Claim C6, amended. For thresholds \<open>t1 \<le> t2\<close>: on an input of at most three detections
  \<open>suppress\<close> keeps at most as many indices at \<open>t1\<close> as at \<open>t2\<close>; and on any input, one
  suppression round (the same kept box against the same remaining indices) retains at
  \<open>t1\<close> only indices it retains at \<open>t2\<close>, and no more of them.
\<close>

theorem suppress_monotone_small:
  assumes "t1 \<le> t2"
  shows "(length ds \<le> 3 \<longrightarrow> length (suppress ds t1) \<le> length (suppress ds t2)) \<and>
         set (retain ds t1 current rest []) \<subseteq> set (retain ds t2 current rest []) \<and>
         length (retain ds t1 current rest []) \<le> length (retain ds t2 current rest [])"
proof (intro conjI impI)
  assume "length ds \<le> 3"
  then have "length (sort_indexes (map score ds)) \<le> 3" by (simp add: sort_indexes_def)
  then show "length (suppress ds t1) \<le> length (suppress ds t2)"
    unfolding suppress_greedy
    by (rule greedy_mono_small [rotated]) (rule passes_mono [OF assms])
qed (rule retain_mono [OF assms])+

text \<open>The amended statement at the scenario, thresholds \<open>0.5\<close> and \<open>0.7\<close>.\<close>

theorem suppress_monotone_small_witness:
  "(1 / 2 :: real) \<le> 7 / 10 \<and> length scenario \<le> 3 \<and>
   length (suppress scenario (1 / 2)) = 1 \<and> length (suppress scenario (7 / 10)) = 2 \<and>
   length (suppress scenario (1 / 2)) \<le> length (suppress scenario (7 / 10)) \<and>
   retain scenario (1 / 2) 0 [1] [] = [] \<and> retain scenario (7 / 10) 0 [1] [] = [1] \<and>
   length (retain scenario (1 / 2) 0 [1] []) \<le> length (retain scenario (7 / 10) 0 [1] [])"
proof -
  have t: "(1 / 2 :: real) \<le> 7 / 10" by simp
  have l: "length scenario \<le> 3" by (simp add: scenario_def)
  have a: "length (suppress scenario (1 / 2)) = 1" by code_simp
  have b: "length (suppress scenario (7 / 10)) = 2" by code_simp
  have c: "retain scenario (1 / 2) 0 [1] [] = []" by code_simp
  have d: "retain scenario (7 / 10) 0 [1] [] = [1]" by code_simp
  from suppress_monotone_small [OF t, of scenario 0 "[1]"] l
  have "length (suppress scenario (1 / 2)) \<le> length (suppress scenario (7 / 10))"
    and "length (retain scenario (1 / 2) 0 [1] []) \<le> length (retain scenario (7 / 10) 0 [1] [])"
    by simp_all
  with t l a b c d show ?thesis by simp
qed

subsection \<open>Stride alignment\<close>

lemma half_le_iff: "real_of_int s / 2 \<le> real_of_int r \<longleftrightarrow> s \<le> 2 * r"
proof -
  have "real_of_int s / 2 \<le> real_of_int r \<longleftrightarrow> real_of_int s \<le> real_of_int (2 * r)"
    by (simp add: field_simps)
  then show ?thesis by (simp only: of_int_le_iff)
qed

lemma smod_nonneg: "0 \<le> d \<Longrightarrow> 0 < s \<Longrightarrow> d smod s = d mod (s :: int)"
  by (cases "d = 0") (simp_all add: signed_modulo_int_def)

lemma divStride_pos:
  assumes "0 < stride"
  shows "divStride stride width height =
           Some (nearest_multiple stride width, nearest_multiple stride height)"
proof -
  have f: "\<lfloor>real_of_int d / real_of_int stride\<rfloor> * stride = d - d mod stride" for d
    by (simp add: floor_divide_of_int_eq minus_mod_eq_div_mult)
  have g: "(\<lfloor>real_of_int d / real_of_int stride\<rfloor> + 1) * stride = d - d mod stride + stride" for d
    using f [of d] by (simp add: algebra_simps)
  show ?thesis
    using assms
    by (simp add: divStride_def Let_def nearest_multiple_def half_le_iff f g
             del: of_int_add of_int_mult)
qed

lemma nearest_multiple_dvd: "stride dvd nearest_multiple stride d"
proof -
  have "d - d mod stride = stride * (d div stride)"
    by (simp add: minus_mod_eq_mult_div)
  then show ?thesis by (simp add: nearest_multiple_def)
qed

lemma nearest_multiple_props:
  assumes "0 < stride" "0 \<le> d"
  shows "0 \<le> nearest_multiple stride d"
    and "2 * \<bar>nearest_multiple stride d - d\<bar> \<le> stride"
    and "stride \<le> nearest_multiple stride d \<longleftrightarrow> stride \<le> 2 * d"
    and "nearest_multiple stride d = 0 \<longleftrightarrow> 2 * d < stride"
proof -
  have m: "0 \<le> d mod stride" "d mod stride < stride" "d mod stride \<le> d"
    using assms by (simp_all add: zmod_le_nonneg_dividend)
  have e: "d - d mod stride = stride * (d div stride)"
    by (simp add: minus_mod_eq_mult_div)
  note sm = smod_nonneg [OF assms(2,1)]
  show "0 \<le> nearest_multiple stride d"
    using m assms by (simp add: nearest_multiple_def)
  show "2 * \<bar>nearest_multiple stride d - d\<bar> \<le> stride"
    using m by (simp add: nearest_multiple_def sm)
  have small: "d mod stride = d" if "d < stride" using that assms by simp
  have big: "stride \<le> d - d mod stride" if "stride \<le> d"
  proof -
    from that assms have "1 \<le> d div stride"
      by (simp add: pos_imp_zdiv_pos_iff int_one_le_iff_zero_less)
    then have "stride * 1 \<le> stride * (d div stride)"
      using assms(1) by (intro mult_left_mono) simp_all
    then show ?thesis by (simp add: e)
  qed
  show "stride \<le> nearest_multiple stride d \<longleftrightarrow> stride \<le> 2 * d"
  proof (cases "d < stride")
    case True
    with small m show ?thesis by (simp add: nearest_multiple_def sm)
  next
    case False
    with big m assms show ?thesis by (simp add: nearest_multiple_def sm)
  qed
  show "nearest_multiple stride d = 0 \<longleftrightarrow> 2 * d < stride"
  proof (cases "d < stride")
    case True
    with small m assms show ?thesis by (simp add: nearest_multiple_def sm)
  next
    case False
    with big m assms show ?thesis by (simp add: nearest_multiple_def sm)
  qed
qed

text \<open>
  Claim C4 as stated fails: a positive dimension below half the stride is rounded down to
  zero. The source has no clamp.
\<close>

theorem divStride_zero:
  "(0 :: int) < 32 \<and> (0 :: int) < 1 \<and> divStride 32 1 1 = Some (0, 0)"
  by (simp add: divStride_def signed_modulo_int_def Let_def)

text \<open>
  Claim C4, amended. For a positive stride and positive width and height, each returned
  dimension is a non-negative multiple of the stride; it is at least the stride exactly
  when twice the input dimension is at least the stride, and it is zero exactly when the
  input dimension is below half the stride.
\<close>

theorem divStride_multiple:
  assumes "0 < stride" "0 < width" "0 < height"
  shows "\<exists>w h. divStride stride width height = Some (w, h) \<and>
           stride dvd w \<and> stride dvd h \<and> 0 \<le> w \<and> 0 \<le> h \<and>
           (stride \<le> w \<longleftrightarrow> stride \<le> 2 * width) \<and> (w = 0 \<longleftrightarrow> 2 * width < stride) \<and>
           (stride \<le> h \<longleftrightarrow> stride \<le> 2 * height) \<and> (h = 0 \<longleftrightarrow> 2 * height < stride)"
proof -
  from assms have w: "0 \<le> width" and h: "0 \<le> height" by simp_all
  show ?thesis
    using divStride_pos [OF assms(1), of width height]
      nearest_multiple_dvd [of stride width] nearest_multiple_dvd [of stride height]
      nearest_multiple_props(1,3,4) [OF assms(1) w]
      nearest_multiple_props(1,3,4) [OF assms(1) h]
    by simp
qed

text \<open>The amended statement at stride 32, width 15 and height 100.\<close>

theorem divStride_multiple_witness:
  "(0 :: int) < 32 \<and> (0 :: int) < 15 \<and> (0 :: int) < 100 \<and>
   divStride 32 15 100 = Some (0, 96) \<and> (32 :: int) dvd 0 \<and> (32 :: int) dvd 96 \<and>
   (2 * 15 < (32 :: int)) \<and> ((32 :: int) \<le> 2 * 100)"
proof -
  have p: "(0 :: int) < 32" "(0 :: int) < 15" "(0 :: int) < 100" by simp_all
  have e: "divStride 32 15 100 = Some (0, 96)"
    by (simp add: divStride_def signed_modulo_int_def Let_def)
  from divStride_multiple [OF p] obtain w h where
    r: "divStride 32 15 100 = Some (w, h)" and d: "32 dvd w" "32 dvd h"
    and z: "w = 0 \<longleftrightarrow> 2 * 15 < (32 :: int)" and b: "32 \<le> h \<longleftrightarrow> (32 :: int) \<le> 2 * 100"
    by blast
  from r e have v: "w = 0" "h = 96" by simp_all
  from d z b show ?thesis unfolding v using p e by simp
qed

text \<open>
  Claim C9. For a positive stride each returned dimension is a multiple of the stride:
  the input rounded down to a multiple, \<open>d - d mod stride\<close>, and one stride more exactly
  when twice the remainder that the source computes is at least the stride. For a
  non-negative dimension that remainder is \<open>d mod stride\<close>, and the result is a nearest
  multiple: it differs from the input by at most half the stride. In particular
  \<open>divStride 32 70 100\<close> is \<open>(64, 96)\<close> and \<open>divStride 32 80 100\<close> is \<open>(96, 96)\<close>.
\<close>

theorem divStride_rounding:
  "(0 < stride \<longrightarrow>
      (\<exists>w h. divStride stride width height = Some (w, h) \<and>
         stride dvd w \<and> stride dvd h \<and>
         (if stride \<le> 2 * (width smod stride)
          then w = width - width mod stride + stride else w = width - width mod stride) \<and>
         (if stride \<le> 2 * (height smod stride)
          then h = height - height mod stride + stride else h = height - height mod stride) \<and>
         (0 \<le> width \<longrightarrow> width smod stride = width mod stride \<and> 2 * \<bar>w - width\<bar> \<le> stride) \<and>
         (0 \<le> height \<longrightarrow> height smod stride = height mod stride \<and> 2 * \<bar>h - height\<bar> \<le> stride))) \<and>
   divStride 32 70 100 = Some (64, 96) \<and>
   divStride 32 80 100 = Some (96, 96)"
proof (intro conjI impI)
  assume s: "0 < stride"
  let ?w = "nearest_multiple stride width" and ?h = "nearest_multiple stride height"
  have "divStride stride width height = Some (?w, ?h)" by (rule divStride_pos [OF s])
  moreover have "stride dvd ?w" "stride dvd ?h" by (rule nearest_multiple_dvd)+
  moreover have "if stride \<le> 2 * (width smod stride)
          then ?w = width - width mod stride + stride else ?w = width - width mod stride"
    by (simp add: nearest_multiple_def)
  moreover have "if stride \<le> 2 * (height smod stride)
          then ?h = height - height mod stride + stride else ?h = height - height mod stride"
    by (simp add: nearest_multiple_def)
  moreover have "0 \<le> width \<longrightarrow> width smod stride = width mod stride \<and> 2 * \<bar>?w - width\<bar> \<le> stride"
    using nearest_multiple_props(2) [OF s, of width] smod_nonneg [OF _ s, of width] by blast
  moreover have "0 \<le> height \<longrightarrow> height smod stride = height mod stride \<and> 2 * \<bar>?h - height\<bar> \<le> stride"
    using nearest_multiple_props(2) [OF s, of height] smod_nonneg [OF _ s, of height] by blast
  ultimately show "\<exists>w h. divStride stride width height = Some (w, h) \<and>
         stride dvd w \<and> stride dvd h \<and>
         (if stride \<le> 2 * (width smod stride)
          then w = width - width mod stride + stride else w = width - width mod stride) \<and>
         (if stride \<le> 2 * (height smod stride)
          then h = height - height mod stride + stride else h = height - height mod stride) \<and>
         (0 \<le> width \<longrightarrow> width smod stride = width mod stride \<and> 2 * \<bar>w - width\<bar> \<le> stride) \<and>
         (0 \<le> height \<longrightarrow> height smod stride = height mod stride \<and> 2 * \<bar>h - height\<bar> \<le> stride)"
    by (intro exI [of _ ?w] exI [of _ ?h] conjI)
next
  show "divStride 32 70 100 = Some (64, 96)"
    by (simp add: divStride_def signed_modulo_int_def Let_def)
  show "divStride 32 80 100 = Some (96, 96)"
    by (simp add: divStride_def signed_modulo_int_def Let_def)
qed

text \<open>The general part of C9 at stride 5, width 7 (rounded down) and height 8 (rounded up).\<close>

theorem divStride_rounding_witness:
  "(0 :: int) < 5 \<and> (0 :: int) \<le> 7 \<and> (0 :: int) \<le> 8 \<and>
   divStride 5 7 8 = Some (5, 10) \<and>
   (7 :: int) smod 5 = 7 mod 5 \<and> 2 * \<bar>5 - 7 :: int\<bar> \<le> 5 \<and>
   (8 :: int) smod 5 = 8 mod 5 \<and> 2 * \<bar>10 - 8 :: int\<bar> \<le> 5"
proof -
  have p: "(0 :: int) < 5" "(0 :: int) \<le> 7" "(0 :: int) \<le> 8" by simp_all
  have e: "divStride 5 7 8 = Some (5, 10)"
    by (simp add: divStride_def signed_modulo_int_def Let_def)
  from divStride_rounding [of 5 7 8, THEN conjunct1, rule_format, OF p(1)] obtain w h where
    r: "divStride 5 7 8 = Some (w, h)"
    and a: "0 \<le> (7 :: int) \<longrightarrow> (7 :: int) smod 5 = 7 mod 5 \<and> 2 * \<bar>w - 7\<bar> \<le> 5"
    and b: "0 \<le> (8 :: int) \<longrightarrow> (8 :: int) smod 5 = 8 mod 5 \<and> 2 * \<bar>h - 8\<bar> \<le> 5"
    by blast
  from r e have v: "w = 5" "h = 10" by simp_all
  from a p(2) have a': "(7 :: int) smod 5 = 7 mod 5 \<and> 2 * \<bar>w - 7\<bar> \<le> 5" by (rule mp)
  from b p(3) have b': "(8 :: int) smod 5 = 8 mod 5 \<and> 2 * \<bar>h - 8\<bar> \<le> 5" by (rule mp)
  from a' b' p e show ?thesis unfolding v by (intro conjI) (erule conjunct1 conjunct2 | assumption)+
qed

subsection \<open>The decoder\<close>

lemma fill_keypoints_eq:
  "kp \<le> NUM_KEYPOINTS \<Longrightarrow> length slots = NUM_KEYPOINTS \<Longrightarrow>
   fill_keypoints kd n xr yr i kp slots =
     take kp slots @ map (\<lambda>k. Some (keypoint_at kd n xr yr i k)) [kp..<NUM_KEYPOINTS]"
proof (induction kd n xr yr i kp slots rule: fill_keypoints.induct)
  case (1 kd n xr yr i kp slots)
  show ?case
  proof (cases "kp < NUM_KEYPOINTS")
    case True
    let ?v = "Some (keypoint_at kd n xr yr i kp)"
    have step: "fill_keypoints kd n xr yr i kp slots =
                fill_keypoints kd n xr yr i (kp + 1) (slots[kp := ?v])"
      using True by (subst fill_keypoints.simps) (simp add: Let_def keypoint_at_def)
    have "fill_keypoints kd n xr yr i (kp + 1) (slots[kp := ?v]) =
            take (kp + 1) (slots[kp := ?v])
              @ map (\<lambda>k. Some (keypoint_at kd n xr yr i k)) [kp + 1..<NUM_KEYPOINTS]"
      using "1.IH" [OF True refl] True "1.prems"(2) by (simp add: keypoint_at_def)
    moreover have "take (kp + 1) (slots[kp := ?v]) = take kp slots @ [?v]"
      using True "1.prems"(2) by (simp add: take_Suc_conv_app_nth)
    moreover have "[kp..<NUM_KEYPOINTS] = kp # [kp + 1..<NUM_KEYPOINTS]"
      using True by (simp add: upt_conv_Cons)
    ultimately show ?thesis using step by simp
  next
    case False
    with "1.prems" have "kp = NUM_KEYPOINTS" by simp
    with False "1.prems"(2) show ?thesis
      by (subst fill_keypoints.simps) simp
  qed
qed

lemma fill_keypoints_all:
  "fill_keypoints kd n xr yr i 0 (replicate NUM_KEYPOINTS None) =
     map (\<lambda>k. Some (keypoint_at kd n xr yr i k)) [0..<NUM_KEYPOINTS]"
  by (simp add: fill_keypoints_eq)

lemma decode_loop_eq:
  "i \<le> n \<Longrightarrow>
   decode_loop bd kd n thr xr yr i results =
     results @ map (detection_at bd kd n xr yr) (filter (\<lambda>a. thr < bd ! (a + n * 4)) [i..<n])"
proof (induction bd kd n thr xr yr i results rule: decode_loop.induct)
  case (1 bd kd n thr xr yr i results)
  show ?case
  proof (cases "i < n")
    case False
    then show ?thesis by (subst decode_loop.simps) simp
  next
    case True
    then have upt: "[i..<n] = i # [i + 1..<n]" by (simp add: upt_conv_Cons)
    show ?thesis
    proof (cases "bd ! (i + n * 4) \<le> thr")
      case skip: True
      have "decode_loop bd kd n thr xr yr i results = decode_loop bd kd n thr xr yr (i + 1) results"
        using True skip by (subst decode_loop.simps) (simp add: Let_def)
      also have "\<dots> = results @ map (detection_at bd kd n xr yr)
                          (filter (\<lambda>a. thr < bd ! (a + n * 4)) [i + 1..<n])"
        using "1.IH"(1) [OF True refl skip] True by simp
      finally show ?thesis using skip by (simp add: upt)
    next
      case keep: False
      have "decode_loop bd kd n thr xr yr i results =
              decode_loop bd kd n thr xr yr (i + 1) (results @ [detection_at bd kd n xr yr i])"
        using True keep
        by (subst decode_loop.simps) (simp add: Let_def detection_at_def fill_keypoints_all)
      also have "\<dots> = (results @ [detection_at bd kd n xr yr i])
                        @ map (detection_at bd kd n xr yr)
                            (filter (\<lambda>a. thr < bd ! (a + n * 4)) [i + 1..<n])"
        using "1.IH"(2) [OF True refl keep refl refl refl refl refl] True
        by (simp add: detection_at_def fill_keypoints_all)
      finally show ?thesis using keep by (simp add: upt)
    qed
  qed
qed


lemma detection_at_spec:
  assumes len: "length predictions = 56 * n" and i: "i < n"
  shows "detection_at (take (n * NUM_BBOX_ATTRS) predictions)
           (drop (n * NUM_BBOX_ATTRS) predictions) n xr yr i =
         spec_detection predictions n xr yr i"
proof -
  have b: "take (n * NUM_BBOX_ATTRS) predictions ! (i + n * c) = predictions ! (c * n + i)"
    if "c \<le> 4" for c
  proof -
    from that have "n * c \<le> n * 4" by simp
    with i have "i + n * c < n + n * 4" by (rule add_less_le_mono)
    then have "i + n * c < n * 5" by simp
    then show ?thesis by (simp add: NUM_BBOX_ATTRS_def mult.commute add.commute)
  qed
  have k: "drop (n * NUM_BBOX_ATTRS) predictions ! j = predictions ! (5 * n + j)" for j
    using len by (simp add: NUM_BBOX_ATTRS_def mult.commute)
  have kp: "keypoint_at (drop (n * NUM_BBOX_ATTRS) predictions) n xr yr i k =
      \<lparr>kp_x = channel predictions n (5 + 3 * k) i * xr,
       kp_y = channel predictions n (5 + 3 * k + 1) i * yr,
       kp_score = channel predictions n (5 + 3 * k + 2) i\<rparr>" for k
    unfolding keypoint_at_def k channel_def KEYPOINT_DIMS_def
    by (simp add: algebra_simps)
  have "take (n * NUM_BBOX_ATTRS) predictions ! i = predictions ! i"
    using b [of 0] by simp
  moreover have "take (n * NUM_BBOX_ATTRS) predictions ! (i + n) = predictions ! (n + i)"
    using b [of 1] by simp
  ultimately show ?thesis
    using b [of 2] b [of 3] b [of 4]
    by (simp add: detection_at_def spec_detection_def channel_def kp NUM_KEYPOINTS_def)
qed

lemma decode_eq:
  assumes len: "length predictions = 56 * n"
  shows "decode predictions n thr xr yr =
         map (spec_detection predictions n xr yr)
           (filter (\<lambda>i. thr < predictions ! (i + n * 4)) [0..<n])"
proof -
  let ?bd = "take (n * NUM_BBOX_ATTRS) predictions"
  let ?kd = "drop (n * NUM_BBOX_ATTRS) predictions"
  have s: "?bd ! (a + n * 4) = predictions ! (a + n * 4)" if "a < n" for a
    using that by (simp add: NUM_BBOX_ATTRS_def)
  have f: "filter (\<lambda>a. thr < ?bd ! (a + n * 4)) [0..<n] =
           filter (\<lambda>i. thr < predictions ! (i + n * 4)) [0..<n]"
    by (rule filter_cong) (simp_all add: s)
  have "decode predictions n thr xr yr =
        map (detection_at ?bd ?kd n xr yr) (filter (\<lambda>a. thr < ?bd ! (a + n * 4)) [0..<n])"
    by (simp add: decode_def Let_def decode_loop_eq)
  also have "\<dots> = map (spec_detection predictions n xr yr)
                      (filter (\<lambda>a. thr < ?bd ! (a + n * 4)) [0..<n])"
    by (rule map_cong) (simp_all add: detection_at_spec [OF len])
  finally show ?thesis by (simp only: f)
qed

lemma kept_position:
  assumes "i < n" and "P i"
  shows "length (filter P [0..<i]) < length (filter P [0..<n])"
    and "filter P [0..<n] ! length (filter P [0..<i]) = i"
proof -
  have "[0..<i + (n - i)] = [0..<i] @ [i..<i + (n - i)]"
    by (rule upt_add_eq_append) simp
  with assms(1) have "[0..<n] = [0..<i] @ i # [Suc i..<n]"
    by (simp add: upt_conv_Cons)
  then have e: "filter P [0..<n] = filter P [0..<i] @ i # filter P [Suc i..<n]"
    using assms(2) by simp
  show "length (filter P [0..<i]) < length (filter P [0..<n])"
    by (simp add: e)
  show "filter P [0..<n] ! length (filter P [0..<i]) = i"
    by (simp add: e nth_append)
qed


text \<open>
  Claim C1. On a tensor of shape \<^verbatim>\<open>[1, 56, N]\<close> the decoder returns, in ascending order
  of the anchor index, the detection of each anchor whose score, read at offset
  \<open>i + N * 4\<close>, is above the threshold, and nothing else: an anchor with a score at most
  the threshold has no detection, any other has exactly one. So the output has as many
  detections as there are anchors above the threshold, its scores are the scores above
  the threshold in anchor order, and every detection in it has a score above the
  threshold and exactly 17 keypoints, none of them an empty slot.
\<close>

theorem decode_score_filter:
  assumes "length predictions = 56 * n"
  shows "decode predictions n thr xr yr =
           map (spec_detection predictions n xr yr)
             (filter (\<lambda>i. thr < predictions ! (i + n * 4)) [0..<n]) \<and>
         length (decode predictions n thr xr yr) =
           card {i. i < n \<and> thr < predictions ! (i + n * 4)} \<and>
         map score (decode predictions n thr xr yr) =
           filter (\<lambda>s. thr < s) (map (\<lambda>i. predictions ! (i + n * 4)) [0..<n]) \<and>
         (\<forall>d\<in>set (decode predictions n thr xr yr).
            thr < score d \<and> length (keypoints d) = 17 \<and> None \<notin> set (keypoints d))"
proof (intro conjI)
  let ?P = "\<lambda>i. thr < predictions ! (i + n * 4)"
  note e = decode_eq [OF assms, of thr xr yr]
  show "decode predictions n thr xr yr = map (spec_detection predictions n xr yr) (filter ?P [0..<n])"
    by (rule e)
  have "length (filter ?P [0..<n]) = card {i. i < length [0..<n] \<and> ?P ([0..<n] ! i)}"
    by (rule length_filter_conv_card)
  also have "{i. i < length [0..<n] \<and> ?P ([0..<n] ! i)} = {i. i < n \<and> ?P i}"
    by auto
  finally show "length (decode predictions n thr xr yr) = card {i. i < n \<and> ?P i}"
    by (simp add: e)
  have sc: "score (spec_detection predictions n xr yr i) = predictions ! (i + n * 4)" for i
    by (simp add: spec_detection_def channel_def add.commute mult.commute)
  show "map score (decode predictions n thr xr yr) =
          filter (\<lambda>s. thr < s) (map (\<lambda>i. predictions ! (i + n * 4)) [0..<n])"
    by (simp add: e sc filter_map comp_def)
  show "\<forall>d\<in>set (decode predictions n thr xr yr).
          thr < score d \<and> length (keypoints d) = 17 \<and> None \<notin> set (keypoints d)"
  proof
    fix d assume "d \<in> set (decode predictions n thr xr yr)"
    then obtain i where i: "?P i" and d: "d = spec_detection predictions n xr yr i"
      by (auto simp: e)
    from i have "thr < score d" by (simp add: d sc)
    moreover have "length (keypoints d) = 17" "None \<notin> set (keypoints d)"
      by (auto simp: d spec_detection_def)
    ultimately show "thr < score d \<and> length (keypoints d) = 17 \<and> None \<notin> set (keypoints d)"
      by simp
  qed
qed

text \<open>
  Claim C2. On a tensor of shape \<^verbatim>\<open>[1, 56, N]\<close>, for an anchor \<open>i\<close> with a score above the
  threshold, the detection emitted for it (it stands in the output after the detections
  of the kept anchors below \<open>i\<close>) has the box \<open>((cx - 0.5 * w) * x_ratio,
  (cy - 0.5 * h) * y_ratio, w * x_ratio, h * y_ratio)\<close> with \<open>cx\<close>, \<open>cy\<close>, \<open>w\<close>, \<open>h\<close> read
  from channels 0 to 3, the score of channel 4, and for each \<open>k < 17\<close> the keypoint with
  x from channel \<open>5 + 3 * k\<close> times \<open>x_ratio\<close>, y from channel \<open>5 + 3 * k + 1\<close> times
  \<open>y_ratio\<close> and the score of channel \<open>5 + 3 * k + 2\<close> as it is.
\<close>

theorem decode_coordinates:
  assumes "length predictions = 56 * n" and "i < n" and "thr < predictions ! (i + n * 4)"
  shows "\<exists>d. length (filter (\<lambda>a. thr < predictions ! (a + n * 4)) [0..<i])
               < length (decode predictions n thr xr yr) \<and>
             d = decode predictions n thr xr yr
                   ! length (filter (\<lambda>a. thr < predictions ! (a + n * 4)) [0..<i]) \<and>
             bbox d = ((predictions ! i - 0.5 * predictions ! (i + n * 2)) * xr,
                       (predictions ! (i + n) - 0.5 * predictions ! (i + n * 3)) * yr,
                       predictions ! (i + n * 2) * xr,
                       predictions ! (i + n * 3) * yr) \<and>
             score d = predictions ! (i + n * 4) \<and>
             length (keypoints d) = 17 \<and>
             (\<forall>k<17. keypoints d ! k = Some
                \<lparr>kp_x = predictions ! ((5 + 3 * k) * n + i) * xr,
                 kp_y = predictions ! ((5 + 3 * k + 1) * n + i) * yr,
                 kp_score = predictions ! ((5 + 3 * k + 2) * n + i)\<rparr>)"
proof -
  let ?P = "\<lambda>a. thr < predictions ! (a + n * 4)"
  let ?j = "length (filter ?P [0..<i])"
  note e = decode_eq [OF assms(1), of thr xr yr]
  note pos = kept_position [of i n ?P, OF assms(2,3)]
  have j: "?j < length (decode predictions n thr xr yr)"
    using pos(1) by (simp add: e)
  have d: "decode predictions n thr xr yr ! ?j = spec_detection predictions n xr yr i"
    using pos by (simp add: e)
  have k: "\<forall>k<17. keypoints (spec_detection predictions n xr yr i) ! k = Some
                \<lparr>kp_x = predictions ! ((5 + 3 * k) * n + i) * xr,
                 kp_y = predictions ! ((5 + 3 * k + 1) * n + i) * yr,
                 kp_score = predictions ! ((5 + 3 * k + 2) * n + i)\<rparr>"
    by (simp add: spec_detection_def channel_def)
  have b: "bbox (spec_detection predictions n xr yr i) =
             ((predictions ! i - 0.5 * predictions ! (i + n * 2)) * xr,
              (predictions ! (i + n) - 0.5 * predictions ! (i + n * 3)) * yr,
              predictions ! (i + n * 2) * xr,
              predictions ! (i + n * 3) * yr)"
    by (simp add: spec_detection_def channel_def add.commute mult.commute)
  have s: "score (spec_detection predictions n xr yr i) = predictions ! (i + n * 4)"
    by (simp add: spec_detection_def channel_def add.commute mult.commute)
  have l: "length (keypoints (spec_detection predictions n xr yr i)) = 17"
    by (simp add: spec_detection_def)
  show ?thesis
    unfolding d using j b s l k by (intro exI [of _ "spec_detection predictions n xr yr i"]) simp
qed


text \<open>
  The statement of C1 at the two-anchor tensor with threshold \<open>0.85\<close>: anchor 0 is
  skipped, anchor 1 is emitted.
\<close>

theorem decode_score_filter_witness:
  "length tensor = 56 * 2 \<and>
   length (decode tensor 2 (85 / 100) 2 (3 / 2)) = 1 \<and>
   map score (decode tensor 2 (85 / 100) 2 (3 / 2)) = [9 / 10] \<and>
   (85 / 100 :: real) < 9 / 10 \<and>
   length (keypoints (decode tensor 2 (85 / 100) 2 (3 / 2) ! 0)) = 17"
proof -
  have len: "length tensor = 56 * 2" by (simp add: tensor_def)
  have l: "length (decode tensor 2 (85 / 100) 2 (3 / 2)) = 1" by code_simp
  have v: "map score (decode tensor 2 (85 / 100) 2 (3 / 2)) = [9 / 10]" by code_simp
  from l have m: "decode tensor 2 (85 / 100) 2 (3 / 2) ! 0 \<in> set (decode tensor 2 (85 / 100) 2 (3 / 2))"
    by (intro nth_mem) simp
  from decode_score_filter [OF len, of "85 / 100" 2 "3 / 2"]
  have "\<forall>d\<in>set (decode tensor 2 (85 / 100) 2 (3 / 2)).
          85 / 100 < score d \<and> length (keypoints d) = 17 \<and> None \<notin> set (keypoints d)"
    by (elim conjE)
  with m have k: "85 / 100 < score (decode tensor 2 (85 / 100) 2 (3 / 2) ! 0)"
    "length (keypoints (decode tensor 2 (85 / 100) 2 (3 / 2) ! 0)) = 17"
    by blast+
  have "score (decode tensor 2 (85 / 100) 2 (3 / 2) ! 0) = map score (decode tensor 2 (85 / 100) 2 (3 / 2)) ! 0"
    using l by simp
  with v k(1) have "(85 / 100 :: real) < 9 / 10" by simp
  with len l v k(2) show ?thesis by (intro conjI)
qed

text \<open>
  The statement of C2 at anchor 1 of the two-anchor tensor, with ratios \<open>2\<close> and \<open>1.5\<close>.
\<close>

theorem decode_coordinates_witness:
  "length tensor = 56 * 2 \<and> (1 :: nat) < 2 \<and> 85 / 100 < tensor ! (1 + 2 * 4) \<and>
   length (filter (\<lambda>a. 85 / 100 < tensor ! (a + 2 * 4)) [0..<1]) = 0 \<and>
   bbox (decode tensor 2 (85 / 100) 2 (3 / 2) ! 0) = (- (3 / 10), - (3 / 40), 1, 21 / 20) \<and>
   score (decode tensor 2 (85 / 100) 2 (3 / 2) ! 0) = 9 / 10 \<and>
   keypoints (decode tensor 2 (85 / 100) 2 (3 / 2) ! 0) ! 16 =
     Some \<lparr>kp_x = 107 / 5, kp_y = 327 / 20, kp_score = 111 / 10\<rparr>"
proof -
  have len: "length tensor = 56 * 2" by (simp add: tensor_def)
  have i: "(1 :: nat) < 2" by simp
  have t: "tensor ! j = real j / 10" if "j < 112" for j
    using that by (simp add: tensor_def)
  have s: "85 / 100 < tensor ! (1 + 2 * 4)" by (simp add: t)
  have j: "length (filter (\<lambda>a. 85 / 100 < tensor ! (a + 2 * 4)) [0..<1]) = 0"
    by (simp add: t)
  from decode_coordinates [OF len i s, of 2 "3 / 2"] obtain d where
    d: "d = decode tensor 2 (85 / 100) 2 (3 / 2)
              ! length (filter (\<lambda>a. 85 / 100 < tensor ! (a + 2 * 4)) [0..<1])"
    and b: "bbox d = ((tensor ! 1 - 0.5 * tensor ! (1 + 2 * 2)) * 2,
                      (tensor ! (1 + 2) - 0.5 * tensor ! (1 + 2 * 3)) * (3 / 2),
                      tensor ! (1 + 2 * 2) * 2,
                      tensor ! (1 + 2 * 3) * (3 / 2))"
    and sc: "score d = tensor ! (1 + 2 * 4)"
    and k: "\<forall>k<17. keypoints d ! k = Some
                \<lparr>kp_x = tensor ! ((5 + 3 * k) * 2 + 1) * 2,
                 kp_y = tensor ! ((5 + 3 * k + 1) * 2 + 1) * (3 / 2),
                 kp_score = tensor ! ((5 + 3 * k + 2) * 2 + 1)\<rparr>"
    by blast
  from d j have d0: "d = decode tensor 2 (85 / 100) 2 (3 / 2) ! 0" by simp
  from b have b': "bbox d = (- (3 / 10), - (3 / 40), 1, 21 / 20)" by (simp add: t)
  from sc have sc': "score d = 9 / 10" by (simp add: t)
  from k have "keypoints d ! 16 = Some
                \<lparr>kp_x = tensor ! ((5 + 3 * 16) * 2 + 1) * 2,
                 kp_y = tensor ! ((5 + 3 * 16 + 1) * 2 + 1) * (3 / 2),
                 kp_score = tensor ! ((5 + 3 * 16 + 2) * 2 + 1)\<rparr>"
    by simp
  then have k': "keypoints d ! 16 = Some \<lparr>kp_x = 107 / 5, kp_y = 327 / 20, kp_score = 111 / 10\<rparr>"
    by (simp add: t)
  from len i s j b' sc' k' show ?thesis unfolding d0 by (intro conjI)
qed

end
